theory Spec2Isabelle
  imports Main "HOL-Library.AList" "HOL-Library.Multiset"
begin

section \<open>Data model\<close>

text \<open>
  Modelled from the spec: the module \<open>crossword\<close> (the classes \<open>Variable\<close> and
  \<open>Crossword\<close>) is imported by \<open>generate.py\<close> and is not among the sources. What
  \<open>generate.py\<close> uses of it is taken as data. A variable has the four attributes of
  section 3 of the specification and is compared by all of them; the fields are
  \<open>var_i\<close>, \<open>var_j\<close>, \<open>var_direction\<close>, \<open>var_length\<close> for \<open>i\<close>, \<open>j\<close>, \<open>direction\<close>,
  \<open>length\<close>. A crossword carries its variables, its word list, the dictionary
  \<open>overlaps\<close> and the method \<open>neighbors\<close>; indices into words are natural numbers
  (section 6).

  Python sets (the variables, the word list, a domain, the result of \<open>neighbors\<close>) are
  lists here: the list order stands for the iteration order of the set, which Python
  leaves open. Python dictionaries (\<open>self.domains\<close>, an assignment) are association
  lists: \<open>map_of\<close> reads a key, \<open>AList.update\<close> writes one (an existing key keeps its
  place, a new key goes to the end, as in a Python dictionary), and the list order is
  the iteration order. Every domain is a set object of its own (\<open>__init__\<close> copies the
  word list, \<open>enforce_node_consistency\<close> builds new sets), so writing one entry of the
  association list is what the in-place \<open>-=\<close> of \<open>revise\<close> does.
\<close>

datatype direction = ACROSS | DOWN

record variable =
  var_i :: nat
  var_j :: nat
  var_direction :: direction
  var_length :: nat

record crossword =
  variables :: "variable list"
  words :: "string list"
  overlaps :: "(variable \<times> variable) \<rightharpoonup> (nat \<times> nat) option"
  neighbors :: "variable \<Rightarrow> variable list"

text \<open>
  \<open>overlaps cw (x, y) = None\<close>: the key \<open>(x, y)\<close> is not in the dictionary;
  \<open>Some None\<close>: the key is mapped to Python's \<open>None\<close>; \<open>Some (Some (i, j))\<close>: it is
  mapped to the pair of indices.
\<close>

type_synonym domains = "(variable \<times> string list) list"

text \<open>An assignment maps a variable to a word, or to Python's \<open>None\<close>.\<close>

type_synonym assignment = "(variable \<times> string option) list"

text \<open>
  The exceptions the code can raise: the \<open>ValueError\<close> of
  \<open>enforce_node_consistency\<close> (its message names the variable), the \<open>ValueError\<close> of
  \<open>min\<close> on an empty sequence, a missing dictionary key, a string index out of range,
  and unpacking \<open>None\<close> into a pair.
\<close>

datatype error =
    ValueError_no_values variable
  | ValueError_min_empty
  | KeyError
  | IndexError
  | TypeError

text \<open>\<open>self.domains[var]\<close> for a \<open>var\<close> that is taken from the keys of \<open>self.domains\<close>.\<close>

definition domain_of :: "domains \<Rightarrow> variable \<Rightarrow> string list" where
  "domain_of ds var = (case map_of ds var of Some ws \<Rightarrow> ws | None \<Rightarrow> [])"

text \<open>\<open>__init__\<close>: every variable starts with a copy of the whole word list.\<close>

definition init_domains :: "crossword \<Rightarrow> domains" where
  "init_domains cw = map (\<lambda>var. (var, words cw)) (variables cw)"

section \<open>Node consistency\<close>

text \<open>
  \<open>enforce_node_consistency\<close> (the method of \<open>generate.py\<close> and the function of \<open>p.py\<close>
  have the same body). The loop runs over the keys of the dictionary; the state at the
  time of the \<open>raise\<close> is returned with the error.
\<close>

fun enforce_loop :: "variable list \<Rightarrow> domains \<Rightarrow> (error + unit) \<times> domains" where
  "enforce_loop [] ds = (Inr (), ds)"
| "enforce_loop (var # vars) ds =
     (case map_of ds var of
        None \<Rightarrow> (Inl KeyError, ds)
      | Some ws \<Rightarrow>
          (if filter (\<lambda>word. length word = var_length var) ws = []
           then (Inl (ValueError_no_values var),
                 AList.update var (filter (\<lambda>word. length word = var_length var) ws) ds)
           else enforce_loop vars
                 (AList.update var (filter (\<lambda>word. length word = var_length var) ws) ds)))"

definition enforce_node_consistency :: "domains \<Rightarrow> (error + unit) \<times> domains" where
  "enforce_node_consistency ds = enforce_loop (map fst ds) ds"

section \<open>Arc consistency\<close>

text \<open>\<open>any(vx[i] == vy[j] for vy in self.domains[y])\<close>, for the list \<open>dy\<close> of \<open>y\<close>.\<close>

fun any_match :: "string \<Rightarrow> nat \<Rightarrow> nat \<Rightarrow> string list \<Rightarrow> error + bool" where
  "any_match vx i j [] = Inr False"
| "any_match vx i j (vy # dy) =
     (if length vx \<le> i then Inl IndexError
      else if length vy \<le> j then Inl IndexError
      else if vx ! i = vy ! j then Inr True
      else any_match vx i j dy)"

text \<open>The loop of \<open>revise\<close> that collects \<open>values_to_remove\<close>.\<close>

fun values_to_remove :: "domains \<Rightarrow> variable \<Rightarrow> nat \<Rightarrow> nat \<Rightarrow> string list \<Rightarrow> error + string list" where
  "values_to_remove ds y i j [] = Inr []"
| "values_to_remove ds y i j (vx # dx) =
     (case map_of ds y of
        None \<Rightarrow> Inl KeyError
      | Some dy \<Rightarrow>
          (case any_match vx i j dy of
             Inl e \<Rightarrow> Inl e
           | Inr found \<Rightarrow>
               (case values_to_remove ds y i j dx of
                  Inl e \<Rightarrow> Inl e
                | Inr rest \<Rightarrow> Inr (if found then rest else vx # rest))))"

definition revise :: "crossword \<Rightarrow> variable \<Rightarrow> variable \<Rightarrow> domains \<Rightarrow> (error + bool) \<times> domains" where
  "revise cw x y ds =
     (case overlaps cw (x, y) of
        None \<Rightarrow> (Inr False, ds)
      | Some None \<Rightarrow> (Inr False, ds)
      | Some (Some (i, j)) \<Rightarrow>
          (case map_of ds x of
             None \<Rightarrow> (Inl KeyError, ds)
           | Some dx \<Rightarrow>
               (case values_to_remove ds y i j dx of
                  Inl e \<Rightarrow> (Inl e, ds)
                | Inr rem \<Rightarrow>
                    (if rem \<noteq> []
                     then (Inr True, AList.update x (filter (\<lambda>vx. vx \<notin> set rem) dx) ds)
                     else (Inr False, ds)))))"

definition get_arcs :: "crossword \<Rightarrow> (variable \<times> variable) list" where
  "get_arcs cw = concat (map (\<lambda>X. map (\<lambda>Y. (X, Y)) (neighbors cw X)) (variables cw))"

text \<open>
  \<open>ac3\<close> terminates because every revision that puts arcs back into the queue
  removes a word from a domain: the number of words in all domains goes down, or it
  stays and the queue gets shorter.
\<close>

definition total_size :: "domains \<Rightarrow> nat" where
  "total_size ds = sum_list (map (\<lambda>p. length (snd p)) ds)"

lemma values_to_remove_subset:
  "values_to_remove ds y i j dx = Inr rem \<Longrightarrow> set rem \<subseteq> set dx"
proof (induction dx arbitrary: rem)
  case Nil
  then show ?case by simp
next
  case (Cons vx dx)
  then show ?case
    by (fastforce split: option.splits sum.splits if_splits)
qed

lemma total_size_update:
  "map_of ds x = Some dx \<Longrightarrow> total_size (AList.update x dx' ds) + length dx = total_size ds + length dx'"
  by (induction ds) (auto simp: total_size_def)

lemma filter_shrinks:
  assumes "rem \<noteq> []" "set rem \<subseteq> set dx"
  shows "length (filter (\<lambda>vx. vx \<notin> set rem) dx) < length dx"
proof -
  from assms obtain r where "r \<in> set rem" "r \<in> set dx" by (cases rem) auto
  then show ?thesis by (intro length_filter_less[where x=r]) auto
qed

lemma revise_True_shrinks:
  assumes "revise cw x y ds = (Inr True, ds')"
  shows "total_size ds' < total_size ds"
proof -
  from assms obtain i j dx rem where
    dx: "map_of ds x = Some dx" and
    rem: "values_to_remove ds y i j dx = Inr rem" "rem \<noteq> []" and
    ds': "ds' = AList.update x (filter (\<lambda>vx. vx \<notin> set rem) dx) ds"
    unfolding revise_def
    by (auto split: option.splits sum.splits if_splits)
  have "length (filter (\<lambda>vx. vx \<notin> set rem) dx) < length dx"
    using filter_shrinks[OF rem(2) values_to_remove_subset[OF rem(1)]] .
  with total_size_update[OF dx, of "filter (\<lambda>vx. vx \<notin> set rem) dx"] ds'
  show ?thesis by simp
qed

lemma revise_not_True_same:
  "revise cw x y ds = (r, ds') \<Longrightarrow> r \<noteq> Inr True \<Longrightarrow> ds' = ds"
  unfolding revise_def
  by (auto split: option.splits sum.splits if_splits)

text \<open>
  The \<open>while queue\<close> loop of \<open>ac3\<close>: \<open>queue.pop(0)\<close> takes the head, the arcs
  \<open>(Z, X)\<close> are appended at the end.
\<close>

function ac3_loop :: "crossword \<Rightarrow> (variable \<times> variable) list \<Rightarrow> domains \<Rightarrow> (error + bool) \<times> domains" where
  "ac3_loop cw [] ds = (Inr True, ds)"
| "ac3_loop cw ((X, Y) # queue) ds =
     (case revise cw X Y ds of
        (Inl e, ds') \<Rightarrow> (Inl e, ds')
      | (Inr True, ds') \<Rightarrow>
          (case map_of ds' X of
             None \<Rightarrow> (Inl KeyError, ds')
           | Some dx \<Rightarrow>
              (if dx = [] then (Inr False, ds')
               else ac3_loop cw
                      (queue @ map (\<lambda>Z. (Z, X)) (filter (\<lambda>Z. Z \<noteq> Y) (neighbors cw X))) ds'))
      | (Inr False, ds') \<Rightarrow> ac3_loop cw queue ds')"
  by pat_completeness auto

termination
proof (relation "measures [\<lambda>(cw, queue, ds). total_size ds, \<lambda>(cw, queue, ds). length queue]", goal_cases)
  case 1
  show ?case by simp
next
  case (2 cw X Y queue ds x1 x2 b dx)
  then have "revise cw X Y ds = (Inr True, x2)" by simp
  then have "total_size x2 < total_size ds" by (rule revise_True_shrinks)
  then show ?case by simp
next
  case (3 cw X Y queue ds x1 x2 b)
  then have "revise cw X Y ds = (x1, x2)" "x1 \<noteq> Inr True" by simp_all
  then have "x2 = ds" by (rule revise_not_True_same)
  then show ?case by simp
qed

text \<open>\<open>ac3(arcs)\<close>: \<open>None\<close> stands for the default argument, which takes all arcs.\<close>

definition ac3 :: "crossword \<Rightarrow> (variable \<times> variable) list option \<Rightarrow> domains \<Rightarrow> (error + bool) \<times> domains" where
  "ac3 cw arcs ds = ac3_loop cw (case arcs of None \<Rightarrow> get_arcs cw | Some given \<Rightarrow> given) ds"

section \<open>Consistency of an assignment\<close>

definition assignment_complete :: "crossword \<Rightarrow> assignment \<Rightarrow> bool" where
  "assignment_complete cw a =
     list_all (\<lambda>var. case map_of a var of Some (Some word) \<Rightarrow> True | _ \<Rightarrow> False) (variables cw)"

text \<open>The inner loop of \<open>consistent\<close>, over the neighbors of \<open>var\<close>, whose word is \<open>val\<close>.\<close>

fun check_neighbors :: "crossword \<Rightarrow> assignment \<Rightarrow> variable \<Rightarrow> string \<Rightarrow> variable list \<Rightarrow> error + bool" where
  "check_neighbors cw a var val [] = Inr True"
| "check_neighbors cw a var val (other_var # rest) =
     (case map_of a other_var of
        None \<Rightarrow> check_neighbors cw a var val rest
      | Some None \<Rightarrow> check_neighbors cw a var val rest
      | Some (Some other_val) \<Rightarrow>
          (case overlaps cw (var, other_var) of
             None \<Rightarrow> check_neighbors cw a var val rest
           | Some None \<Rightarrow> Inl TypeError
           | Some (Some (var_pos, other_var_pos)) \<Rightarrow>
               (if length val \<le> var_pos then Inl IndexError
                else if length other_val \<le> other_var_pos then Inl IndexError
                else if val ! var_pos \<noteq> other_val ! other_var_pos then Inr False
                else check_neighbors cw a var val rest)))"

text \<open>The outer loop of \<open>consistent\<close>, over the items of the assignment.\<close>

fun check_items :: "crossword \<Rightarrow> assignment \<Rightarrow> (variable \<times> string option) list \<Rightarrow> error + bool" where
  "check_items cw a [] = Inr True"
| "check_items cw a ((var, None) # rest) = check_items cw a rest"
| "check_items cw a ((var, Some val) # rest) =
     (if length val \<noteq> var_length var then Inr False
      else case check_neighbors cw a var val (neighbors cw var) of
             Inl e \<Rightarrow> Inl e
           | Inr True \<Rightarrow> check_items cw a rest
           | Inr False \<Rightarrow> Inr False)"

text \<open>
  \<open>len(values) != len(set(values))\<close> holds exactly when the list of values has a
  repetition; the values are the words and the \<open>None\<close>s of the assignment.
\<close>

definition consistent :: "crossword \<Rightarrow> assignment \<Rightarrow> error + bool" where
  "consistent cw a = (if \<not> distinct (map snd a) then Inr False else check_items cw a a)"

section \<open>Heuristics\<close>

text \<open>
  \<open>count_conflicts\<close>: the sum runs over the neighbors of \<open>var\<close> that are no key of
  the assignment.
\<close>

fun count_conflicts :: "domains \<Rightarrow> assignment \<Rightarrow> string \<Rightarrow> variable list \<Rightarrow> error + int" where
  "count_conflicts ds a val [] = Inr 0"
| "count_conflicts ds a val (neighbor # rest) =
     (if neighbor \<in> set (map fst a) then count_conflicts ds a val rest
      else case map_of ds neighbor of
             None \<Rightarrow> Inl KeyError
           | Some dn \<Rightarrow>
               (case count_conflicts ds a val rest of
                  Inl e \<Rightarrow> Inl e
                | Inr n \<Rightarrow> Inr (int (length dn) - int (length (filter (\<lambda>v. v \<noteq> val) dn)) + n)))"

text \<open>\<open>sorted(xs, key=f)\<close> computes the key of every element, in order, and then sorts
  stably by the keys.\<close>

fun keyed :: "('a \<Rightarrow> error + int) \<Rightarrow> 'a list \<Rightarrow> error + (int \<times> 'a) list" where
  "keyed f [] = Inr []"
| "keyed f (x # xs) =
     (case f x of
        Inl e \<Rightarrow> Inl e
      | Inr k \<Rightarrow> (case keyed f xs of Inl e \<Rightarrow> Inl e | Inr kxs \<Rightarrow> Inr ((k, x) # kxs)))"

definition order_domain_values :: "crossword \<Rightarrow> domains \<Rightarrow> variable \<Rightarrow> assignment \<Rightarrow> error + string list" where
  "order_domain_values cw ds var a =
     (case map_of ds var of
        None \<Rightarrow> Inl KeyError
      | Some dv \<Rightarrow>
          (case keyed (\<lambda>val. count_conflicts ds a val (neighbors cw var)) dv of
             Inl e \<Rightarrow> Inl e
           | Inr kvs \<Rightarrow> Inr (map snd (sort_key fst kvs))))"

text \<open>\<open>degree\<close>, the local function of \<open>select_unassigned_variable\<close>.\<close>

definition degree :: "domains \<Rightarrow> variable \<Rightarrow> int" where
  "degree ds var =
     int (length (filter
       (\<lambda>other. other \<noteq> var \<and> list_ex (\<lambda>w. w \<in> set (domain_of ds other)) (domain_of ds var))
       (map fst ds)))"

text \<open>The key of \<open>min\<close>, a pair, and Python's order on pairs.\<close>

definition select_key :: "domains \<Rightarrow> variable \<Rightarrow> nat \<times> int" where
  "select_key ds var = (length (domain_of ds var), - degree ds var)"

definition key_less :: "nat \<times> int \<Rightarrow> nat \<times> int \<Rightarrow> bool" where
  "key_less p q = (fst p < fst q \<or> (fst p = fst q \<and> snd p < snd q))"

text \<open>\<open>min(xs, key=f)\<close> on a non-empty sequence: the first element with the least key.\<close>

fun min_by :: "('a \<Rightarrow> nat \<times> int) \<Rightarrow> 'a \<Rightarrow> 'a list \<Rightarrow> 'a" where
  "min_by f m [] = m"
| "min_by f m (x # xs) = min_by f (if key_less (f x) (f m) then x else m) xs"

definition unassigned :: "domains \<Rightarrow> assignment \<Rightarrow> variable list" where
  "unassigned ds a = filter (\<lambda>var. var \<notin> set (map fst a)) (map fst ds)"

definition select_unassigned_variable :: "domains \<Rightarrow> assignment \<Rightarrow> error + variable" where
  "select_unassigned_variable ds a =
     (case unassigned ds a of
        [] \<Rightarrow> Inl ValueError_min_empty
      | var # vars \<Rightarrow> Inr (min_by (select_key ds) var vars))"

section \<open>Backtracking search\<close>

text \<open>
  \<open>backtrack\<close> changes the dictionary it is given. The model returns the value of
  the call (\<open>Inr (Some a)\<close>: the dictionary itself is returned; \<open>Inr None\<close>: Python's
  \<open>None\<close>; \<open>Inl e\<close>: an exception) together with the state of the dictionary when
  the call ends. \<open>try_words\<close> is the \<open>for word in ...\<close> loop of \<open>backtrack\<close>, on the
  words still to try.
\<close>

function backtrack :: "crossword \<Rightarrow> domains \<Rightarrow> assignment \<Rightarrow> (error + assignment option) \<times> assignment"
  and try_words :: "crossword \<Rightarrow> domains \<Rightarrow> variable \<Rightarrow> string list \<Rightarrow> assignment \<Rightarrow> (error + assignment option) \<times> assignment"
where
  "backtrack cw ds a =
     (if assignment_complete cw a then (Inr (Some a), a)
      else case select_unassigned_variable ds a of
             Inl e \<Rightarrow> (Inl e, a)
           | Inr var \<Rightarrow>
               (case order_domain_values cw ds var a of
                  Inl e \<Rightarrow> (Inl e, a)
                | Inr ws \<Rightarrow> try_words cw ds var ws a))"
| "try_words cw ds var [] a = (Inr None, a)"
| "try_words cw ds var (word # ws) a =
     (case consistent cw (AList.update var (Some word) a) of
        Inl e \<Rightarrow> (Inl e, AList.update var (Some word) a)
      | Inr True \<Rightarrow>
          (case backtrack cw ds (AList.update var (Some word) a) of
             (Inl e, a') \<Rightarrow> (Inl e, a')
           | (Inr (Some result), a') \<Rightarrow> (Inr (Some result), a')
           | (Inr None, a') \<Rightarrow> try_words cw ds var ws (AList.update var None a'))
      | Inr False \<Rightarrow>
          try_words cw ds var ws (AList.update var None (AList.update var (Some word) a)))"
  by pat_completeness auto

text \<open>
  Termination: a call of \<open>backtrack\<close> inside the loop gets a dictionary with one key
  more, a key of \<open>self.domains\<close>, and no call ever removes a key.
\<close>

lemma min_by_in: "min_by f m xs \<in> set (m # xs)"
  by (induction xs arbitrary: m) auto

lemma select_unassigned_variable_in:
  assumes "select_unassigned_variable ds a = Inr var"
  shows "var \<in> set (unassigned ds a)"
proof (cases "unassigned ds a")
  case Nil
  with assms show ?thesis by (simp add: select_unassigned_variable_def)
next
  case (Cons u us)
  with assms have "var = min_by (select_key ds) u us"
    by (simp add: select_unassigned_variable_def)
  with Cons show ?thesis using min_by_in[of "select_key ds" u us] by simp
qed

lemma keys_update: "fst ` set (AList.update k v al) = insert k (fst ` set al)"
  using AList.dom_update[of k v al] by simp

lemma backtrack_keys_partial:
  "backtrack_try_words_dom (Inl (cw, ds, a)) \<Longrightarrow>
     set (map fst a) \<subseteq> set (map fst (snd (backtrack cw ds a)))"
  "backtrack_try_words_dom (Inr (cw, ds, var, ws, a)) \<Longrightarrow>
     set (map fst a) \<subseteq> set (map fst (snd (try_words cw ds var ws a)))"
proof (induct rule: backtrack_try_words.pinduct)
  case (1 cw ds a)
  then show ?case
    by (auto simp: backtrack.psimps split: sum.splits)
next
  case (2 cw ds var a)
  then show ?case by (simp add: try_words.psimps)
next
  case (3 cw ds var word ws a)
  let ?a1 = "AList.update var (Some word) a"
  have sub1: "set (map fst a) \<subseteq> set (map fst ?a1)" by (auto simp: keys_update)
  show ?case
  proof (cases "consistent cw ?a1")
    case (Inl e)
    with 3(1) sub1 show ?thesis by (simp add: try_words.psimps)
  next
    case (Inr b)
    show ?thesis
    proof (cases b)
      case False
      with Inr 3(4)[of b] have
        "set (map fst (AList.update var None ?a1)) \<subseteq>
           set (map fst (snd (try_words cw ds var ws (AList.update var None ?a1))))"
        by simp
      moreover have "set (map fst a) \<subseteq> set (map fst (AList.update var None ?a1))"
        by (auto simp: keys_update)
      ultimately show ?thesis using 3(1) Inr False by (simp add: try_words.psimps)
    next
      case True
      obtain r a' where bt: "backtrack cw ds ?a1 = (r, a')" by (cases "backtrack cw ds ?a1")
      from 3(2)[of b] Inr True bt have sub2: "set (map fst ?a1) \<subseteq> set (map fst a')" by simp
      show ?thesis
      proof (cases r)
        case (Inl e)
        with 3(1) Inr True bt sub1 sub2 show ?thesis by (auto simp: try_words.psimps)
      next
        case r: (Inr res)
        show ?thesis
        proof (cases res)
          case (Some result)
          with 3(1) Inr True bt r sub1 sub2 show ?thesis by (auto simp: try_words.psimps)
        next
          case None
          with 3(3)[of b r a' res] Inr True bt r have
            "set (map fst (AList.update var None a')) \<subseteq>
               set (map fst (snd (try_words cw ds var ws (AList.update var None a'))))"
            by simp
          moreover have "set (map fst a) \<subseteq> set (map fst (AList.update var None a'))"
            using sub1 sub2 by (auto simp: keys_update)
          ultimately show ?thesis using 3(1) Inr True bt r None by (simp add: try_words.psimps)
        qed
      qed
    qed
  qed
qed

termination backtrack
proof (relation "measures
    [\<lambda>p. case p of
            Inl (cw, ds, a) \<Rightarrow> card (set (map fst ds) - set (map fst a))
          | Inr (cw, ds, var, ws, a) \<Rightarrow> card (set (map fst ds) - set (map fst a) - {var}),
     \<lambda>p. case p of
            Inl (cw, ds, a) \<Rightarrow> 0
          | Inr (cw, ds, var, ws, a) \<Rightarrow> Suc (length ws)]", goal_cases)
  case 1
  show ?case by simp
next
  case (2 cw ds a var ws)
  then have "var \<in> set (unassigned ds a)" by (simp add: select_unassigned_variable_in)
  then have "var \<in> set (map fst ds) - set (map fst a)" by (auto simp: unassigned_def)
  then have "card (set (map fst ds) - set (map fst a) - {var}) < card (set (map fst ds) - set (map fst a))"
    by (intro psubset_card_mono) auto
  then show ?case by simp
next
  case (3 cw ds var word ws a b)
  have "set (map fst ds) - set (map fst (AList.update var (Some word) a))
      = set (map fst ds) - set (map fst a) - {var}"
    by (auto simp: keys_update)
  then show ?case by simp
next
  case (4 cw ds var word ws a b x y ba)
  then have dom: "backtrack_try_words_dom (Inl (cw, ds, AList.update var (Some word) a))"
    by simp
  from 4 have "snd (backtrack cw ds (AList.update var (Some word) a)) = y"
    by (metis snd_conv)
  with backtrack_keys_partial(1)[OF dom]
  have "set (map fst (AList.update var (Some word) a)) \<subseteq> set (map fst y)" by simp
  then have "set (map fst ds) - set (map fst (AList.update var None y)) - {var}
      \<subseteq> set (map fst ds) - set (map fst a) - {var}"
    by (auto simp: keys_update)
  then have "card (set (map fst ds) - set (map fst (AList.update var None y)) - {var})
      \<le> card (set (map fst ds) - set (map fst a) - {var})"
    by (intro card_mono) auto
  then show ?case by auto
next
  case (5 cw ds var word ws a b)
  have "set (map fst ds) - set (map fst (AList.update var None (AList.update var (Some word) a))) - {var}
      = set (map fst ds) - set (map fst a) - {var}"
    by (auto simp: keys_update)
  then show ?case by simp
qed

text \<open>No call of \<open>backtrack\<close> removes a key, whatever it returns or raises.\<close>

lemma backtrack_keys:
  "fst ` set a \<subseteq> fst ` set (snd (backtrack cw ds a))"
  "fst ` set a \<subseteq> fst ` set (snd (try_words cw ds var ws a))"
proof (induction cw ds a and cw ds var ws a rule: backtrack_try_words.induct)
  case (1 cw ds a)
  show ?case
  proof (cases "assignment_complete cw a")
    case True
    then show ?thesis by simp
  next
    case nc: False
    show ?thesis
    proof (cases "select_unassigned_variable ds a")
      case (Inl e)
      with nc show ?thesis by simp
    next
      case sel: (Inr v)
      show ?thesis
      proof (cases "order_domain_values cw ds v a")
        case (Inl e)
        with nc sel show ?thesis by simp
      next
        case (Inr cands)
        with "1.IH"[of v cands] nc sel show ?thesis by simp
      qed
    qed
  qed
next
  case (2 cw ds var a)
  show ?case by simp
next
  case (3 cw ds var word ws a)
  let ?a1 = "AList.update var (Some word) a"
  have sub1: "fst ` set a \<subseteq> fst ` set ?a1" by (auto simp: keys_update)
  show ?case
  proof (cases "consistent cw ?a1")
    case (Inl e)
    with sub1 show ?thesis by simp
  next
    case (Inr b)
    show ?thesis
    proof (cases b)
      case False
      have "fst ` set (AList.update var None ?a1)
          \<subseteq> fst ` set (snd (try_words cw ds var ws (AList.update var None ?a1)))"
        using "3.IH"(3)[of b] Inr False by simp
      moreover have "fst ` set a \<subseteq> fst ` set (AList.update var None ?a1)"
        by (auto simp: keys_update)
      ultimately show ?thesis using Inr False by simp
    next
      case True
      obtain r a' where bt: "backtrack cw ds ?a1 = (r, a')" by (cases "backtrack cw ds ?a1")
      have sub2: "fst ` set ?a1 \<subseteq> fst ` set a'"
        using "3.IH"(1)[of b] Inr True bt by simp
      show ?thesis
      proof (cases r)
        case (Inl e)
        with Inr True bt sub1 sub2 show ?thesis by auto
      next
        case r: (Inr res)
        show ?thesis
        proof (cases res)
          case (Some result)
          with Inr True bt r sub1 sub2 show ?thesis by auto
        next
          case None
          have "fst ` set (AList.update var None a')
              \<subseteq> fst ` set (snd (try_words cw ds var ws (AList.update var None a')))"
            using "3.IH"(2)[of b r a' res] Inr True bt r None by simp
          moreover have "fst ` set a \<subseteq> fst ` set (AList.update var None a')"
            using sub1 sub2 by (auto simp: keys_update)
          ultimately show ?thesis using Inr True bt r None by simp
        qed
      qed
    qed
  qed
qed

text \<open>
  The variables that a call of \<open>backtrack\<close> tries: \<open>tried\<close> follows the call and
  lists \<open>var\<close> each time the statement \<open>assignment[var] = word\<close> is executed, in the
  call itself and in the calls it makes. \<open>tried_loop\<close> does so for the loop over the
  words still to try; where the loop goes on after a recursive call it goes on, as
  \<open>try_words\<close> does, from the dictionary which that call has left.
\<close>

function tried :: "crossword \<Rightarrow> domains \<Rightarrow> assignment \<Rightarrow> variable list"
  and tried_loop :: "crossword \<Rightarrow> domains \<Rightarrow> variable \<Rightarrow> string list \<Rightarrow> assignment \<Rightarrow> variable list"
where
  "tried cw ds a =
     (if assignment_complete cw a then []
      else case select_unassigned_variable ds a of
             Inl e \<Rightarrow> []
           | Inr var \<Rightarrow>
               (case order_domain_values cw ds var a of
                  Inl e \<Rightarrow> []
                | Inr ws \<Rightarrow> tried_loop cw ds var ws a))"
| "tried_loop cw ds var [] a = []"
| "tried_loop cw ds var (word # ws) a =
     var #
     (case consistent cw (AList.update var (Some word) a) of
        Inl e \<Rightarrow> []
      | Inr True \<Rightarrow>
          tried cw ds (AList.update var (Some word) a) @
          (case backtrack cw ds (AList.update var (Some word) a) of
             (Inl e, a') \<Rightarrow> []
           | (Inr (Some result), a') \<Rightarrow> []
           | (Inr None, a') \<Rightarrow> tried_loop cw ds var ws (AList.update var None a'))
      | Inr False \<Rightarrow>
          tried_loop cw ds var ws (AList.update var None (AList.update var (Some word) a)))"
  by pat_completeness auto
termination tried
proof (relation "measures
    [\<lambda>p. case p of
            Inl (cw, ds, a) \<Rightarrow> card (set (map fst ds) - set (map fst a))
          | Inr (cw, ds, var, ws, a) \<Rightarrow> card (set (map fst ds) - set (map fst a) - {var}),
     \<lambda>p. case p of
            Inl (cw, ds, a) \<Rightarrow> 0
          | Inr (cw, ds, var, ws, a) \<Rightarrow> Suc (length ws)]", goal_cases)
  case 1
  show ?case by simp
next
  case (2 cw ds a var ws)
  then have "var \<in> set (unassigned ds a)" by (simp add: select_unassigned_variable_in)
  then have "var \<in> set (map fst ds) - set (map fst a)" by (auto simp: unassigned_def)
  then have "card (set (map fst ds) - set (map fst a) - {var}) < card (set (map fst ds) - set (map fst a))"
    by (intro psubset_card_mono) auto
  then show ?case by simp
next
  case (3 cw ds var word ws a b)
  have "set (map fst ds) - set (map fst (AList.update var (Some word) a))
      = set (map fst ds) - set (map fst a) - {var}"
    by (auto simp: keys_update)
  then show ?case by simp
next
  case (4 cw ds var word ws a b x y ba)
  from 4 have "snd (backtrack cw ds (AList.update var (Some word) a)) = y"
    by (metis snd_conv)
  with backtrack_keys(1)[of "AList.update var (Some word) a" cw ds]
  have "fst ` set (AList.update var (Some word) a) \<subseteq> fst ` set y" by simp
  then have "set (map fst ds) - set (map fst (AList.update var None y)) - {var}
      \<subseteq> set (map fst ds) - set (map fst a) - {var}"
    by (auto simp: keys_update)
  then have "card (set (map fst ds) - set (map fst (AList.update var None y)) - {var})
      \<le> card (set (map fst ds) - set (map fst a) - {var})"
    by (intro card_mono) auto
  then show ?case by auto
next
  case (5 cw ds var word ws a b)
  have "set (map fst ds) - set (map fst (AList.update var None (AList.update var (Some word) a))) - {var}
      = set (map fst ds) - set (map fst a) - {var}"
    by (auto simp: keys_update)
  then show ?case by simp
qed

declare tried.simps [simp del]

section \<open>The solver\<close>

text \<open>\<open>solve\<close>: the value of \<open>self.ac3()\<close> is not used.\<close>

definition solve :: "crossword \<Rightarrow> error + assignment option" where
  "solve cw =
     (case enforce_node_consistency (init_domains cw) of
        (Inl e, ds1) \<Rightarrow> Inl e
      | (Inr u, ds1) \<Rightarrow>
          (case ac3 cw None ds1 of
             (Inl e, ds2) \<Rightarrow> Inl e
           | (Inr arc_consistent, ds2) \<Rightarrow> fst (backtrack cw ds2 [])))"

text \<open>
  The methods that the body of \<open>solve\<close> calls, in order: three calls in a row, none
  of them under a condition, so a call is left out only when an earlier one raises.
\<close>

datatype call = Call_enforce_node_consistency | Call_ac3 | Call_backtrack

definition solve_calls :: "crossword \<Rightarrow> call list" where
  "solve_calls cw =
     (case enforce_node_consistency (init_domains cw) of
        (Inl e, ds1) \<Rightarrow> [Call_enforce_node_consistency]
      | (Inr u, ds1) \<Rightarrow>
          (case ac3 cw None ds1 of
             (Inl e, ds2) \<Rightarrow> [Call_enforce_node_consistency, Call_ac3]
           | (Inr arc_consistent, ds2) \<Rightarrow>
               [Call_enforce_node_consistency, Call_ac3, Call_backtrack]))"

section \<open>Notions of the specification\<close>

text \<open>
  Section 4.3 of the specification, read on the assigned entries only (those whose
  value is a word): the words are pairwise distinct, every word has the length of its
  variable, and two assigned neighbors agree at the indices of their recorded overlap.
\<close>

definition assigned :: "assignment \<Rightarrow> (variable \<times> string) list" where
  "assigned a =
     concat (map (\<lambda>(var, val). case val of None \<Rightarrow> [] | Some word \<Rightarrow> [(var, word)]) a)"

definition overlap_agrees :: "crossword \<Rightarrow> variable \<times> string \<Rightarrow> variable \<times> string \<Rightarrow> bool" where
  "overlap_agrees cw p q =
     (if fst q \<in> set (neighbors cw (fst p)) then
        (case overlaps cw (fst p, fst q) of
           Some (Some (i, j)) \<Rightarrow> i < length (snd p) \<and> j < length (snd q) \<and> snd p ! i = snd q ! j
         | _ \<Rightarrow> True)
      else True)"

definition spec_consistent :: "crossword \<Rightarrow> assignment \<Rightarrow> bool" where
  "spec_consistent cw a =
     (distinct (map snd (assigned a)) \<and>
      list_all (\<lambda>(var, word). length word = var_length var) (assigned a) \<and>
      list_all (\<lambda>p. list_all (overlap_agrees cw p) (assigned a)) (assigned a))"

text \<open>The words of a list that have the length of a variable.\<close>

definition fits :: "variable \<Rightarrow> string list \<Rightarrow> string list" where
  "fits var ws = filter (\<lambda>word. length word = var_length var) ws"

text \<open>\<open>pruned_from ds ds'\<close>: \<open>ds'\<close> has the keys of \<open>ds\<close>, and no domain of \<open>ds'\<close> has a
  word that the domain of the same variable in \<open>ds\<close> does not have.\<close>

definition pruned_from :: "domains \<Rightarrow> domains \<Rightarrow> bool" where
  "pruned_from ds ds' =
     (map fst ds' = map fst ds \<and> (\<forall>v. set (domain_of ds' v) \<subseteq> set (domain_of ds v)))"

text \<open>
  The neighbors that \<open>count_conflicts\<close> sums over, and two scores of a candidate
  word: \<open>spec_score\<close> as the specification words it (the entries of the neighbors'
  domains that are not equal to the candidate), \<open>equal_score\<close> with the entries that are
  equal to it.
\<close>

definition unassigned_neighbors :: "crossword \<Rightarrow> assignment \<Rightarrow> variable \<Rightarrow> variable list" where
  "unassigned_neighbors cw a var = filter (\<lambda>n. n \<notin> fst ` set a) (neighbors cw var)"

definition spec_score :: "crossword \<Rightarrow> domains \<Rightarrow> assignment \<Rightarrow> variable \<Rightarrow> string \<Rightarrow> int" where
  "spec_score cw ds a var val =
     (\<Sum>n\<leftarrow>unassigned_neighbors cw a var. int (length (filter (\<lambda>v. v \<noteq> val) (domain_of ds n))))"

definition equal_score :: "crossword \<Rightarrow> domains \<Rightarrow> assignment \<Rightarrow> variable \<Rightarrow> string \<Rightarrow> int" where
  "equal_score cw ds a var val =
     (\<Sum>n\<leftarrow>unassigned_neighbors cw a var. int (length (filter (\<lambda>v. v = val) (domain_of ds n))))"



text \<open>
  A valid assignment, read as a dictionary: no word is the value of two variables,
  every word has the length of its variable, and the words of two neighbors agree at
  the indices of their recorded overlap.
\<close>

definition valid_assignment :: "crossword \<Rightarrow> assignment \<Rightarrow> bool" where
  "valid_assignment cw r =
     ((\<forall>v1 v2 w. map_of r v1 = Some (Some w) \<and> map_of r v2 = Some (Some w) \<longrightarrow> v1 = v2) \<and>
      (\<forall>v w. map_of r v = Some (Some w) \<longrightarrow> length w = var_length v) \<and>
      (\<forall>v1 v2 w1 w2 i j.
         v2 \<in> set (neighbors cw v1) \<and> overlaps cw (v1, v2) = Some (Some (i, j)) \<and>
         map_of r v1 = Some (Some w1) \<and> map_of r v2 = Some (Some w2) \<longrightarrow>
         i < length w1 \<and> j < length w2 \<and> w1 ! i = w2 ! j))"

text \<open>
  Modelled from the spec: the class \<open>Crossword\<close> is not among the sources, and the
  propagation relies on what its \<open>neighbors\<close> and \<open>overlaps\<close> are. Sections 2, 3 and
  6 of the specification: the neighbors of a variable are the other variables that
  share an overlap with it, and \<open>overlap(X, Y)\<close> and \<open>overlap(Y, X)\<close> describe the same
  constraint with the indices swapped. \<open>wf_crossword\<close> asks this of every variable
  \<open>X\<close> and every neighbor \<open>Y\<close> of \<open>X\<close>: \<open>Y\<close> is another variable, \<open>X\<close> is a neighbor
  of \<open>Y\<close>, and an overlap recorded for \<open>(Y, X)\<close> is recorded for \<open>(X, Y)\<close> with the
  indices swapped.
\<close>

definition wf_crossword :: "crossword \<Rightarrow> bool" where
  "wf_crossword cw =
     list_all (\<lambda>X. list_all (\<lambda>Y.
        Y \<noteq> X \<and> Y \<in> set (variables cw) \<and> X \<in> set (neighbors cw Y) \<and>
        (case overlaps cw (Y, X) of
           Some (Some (j, i)) \<Rightarrow> overlaps cw (X, Y) = Some (Some (i, j))
         | _ \<Rightarrow> True))
       (neighbors cw X)) (variables cw)"

text \<open>
  A word \<open>vx\<close> is supported in the list \<open>dy\<close> when some word of \<open>dy\<close> has at index \<open>j\<close>
  the character that \<open>vx\<close> has at index \<open>i\<close>; the arc \<open>(X, Y)\<close> is consistent when
  every word of the domain of \<open>X\<close> is supported in the domain of \<open>Y\<close>, at the indices
  of the recorded overlap.
\<close>

definition supported :: "nat \<Rightarrow> nat \<Rightarrow> string list \<Rightarrow> string \<Rightarrow> bool" where
  "supported i j dy vx = list_ex (\<lambda>vy. i < length vx \<and> j < length vy \<and> vx ! i = vy ! j) dy"

definition arc_consistent :: "crossword \<Rightarrow> domains \<Rightarrow> variable \<Rightarrow> variable \<Rightarrow> bool" where
  "arc_consistent cw ds X Y =
     (case overlaps cw (X, Y) of
        Some (Some (i, j)) \<Rightarrow> list_all (supported i j (domain_of ds Y)) (domain_of ds X)
      | _ \<Rightarrow> True)"

text \<open>
  The invariant of the loop of \<open>ac3\<close>: every arc between neighbors is in the queue
  or is consistent; and the queue holds arcs between neighbors only.
\<close>

definition arcs_pending_or_consistent ::
  "crossword \<Rightarrow> (variable \<times> variable) list \<Rightarrow> domains \<Rightarrow> bool" where
  "arcs_pending_or_consistent cw queue ds =
     (\<forall>X \<in> set (variables cw). \<forall>Y \<in> set (neighbors cw X).
        (X, Y) \<in> set queue \<or> arc_consistent cw ds X Y)"

definition neighbor_arcs :: "crossword \<Rightarrow> (variable \<times> variable) list \<Rightarrow> bool" where
  "neighbor_arcs cw queue =
     (\<forall>arc \<in> set queue. fst arc \<in> set (variables cw) \<and> snd arc \<in> set (neighbors cw (fst arc)))"

text \<open>
  \<open>left_behind a a' k\<close>: in the dictionary \<open>a'\<close> the key \<open>k\<close> has the entry it has in
  \<open>a\<close>, or it is no key of \<open>a\<close> and is mapped to \<open>None\<close> in \<open>a'\<close>.
\<close>

definition left_behind :: "assignment \<Rightarrow> assignment \<Rightarrow> variable \<Rightarrow> bool" where
  "left_behind a a' k =
     (map_of a' k = map_of a k \<or> (map_of a k = None \<and> map_of a' k = Some None))"

section \<open>Concrete puzzles\<close>

text \<open>
  Two slots of length 2 that share their first cell. The domain store
  \<open>corner_domains\<close> leaves \<open>ab\<close> and \<open>cd\<close> to the first slot and \<open>cd\<close>, \<open>ce\<close>, \<open>cf\<close> to
  the second.
\<close>

definition slot_X :: variable where
  "slot_X = \<lparr>var_i = 0, var_j = 0, var_direction = ACROSS, var_length = 2\<rparr>"

definition slot_Y :: variable where
  "slot_Y = \<lparr>var_i = 0, var_j = 0, var_direction = DOWN, var_length = 2\<rparr>"

definition corner :: crossword where
  "corner = \<lparr>variables = [slot_X, slot_Y], words = [''ab'', ''cd'', ''ce'', ''cf''],
     overlaps = [(slot_X, slot_Y) \<mapsto> Some (0, 0), (slot_Y, slot_X) \<mapsto> Some (0, 0)],
     neighbors = (\<lambda>v. if v = slot_X then [slot_Y] else if v = slot_Y then [slot_X] else [])\<rparr>"

definition corner_domains :: domains where
  "corner_domains = [(slot_X, [''ab'', ''cd'']), (slot_Y, [''cd'', ''ce'', ''cf''])]"

text \<open>
  A slot of length 4 next to \<open>slot_X\<close>, with a word list that has no word of four
  letters (scenario C of the specification).
\<close>

definition slot_long :: variable where
  "slot_long = \<lparr>var_i = 1, var_j = 0, var_direction = ACROSS, var_length = 4\<rparr>"

definition no_long_word :: crossword where
  "no_long_word = \<lparr>variables = [slot_X, slot_long], words = [''ab'', ''cd''],
     overlaps = [(slot_X, slot_long) \<mapsto> None, (slot_long, slot_X) \<mapsto> None],
     neighbors = (\<lambda>v. [])\<rparr>"

text \<open>
  Two slots of length 2, the first cell of \<open>slot_low\<close> being the second cell of
  \<open>slot_Y\<close>; no word of the list has \<open>a\<close> or \<open>c\<close> as its second letter.
\<close>

definition slot_low :: variable where
  "slot_low = \<lparr>var_i = 1, var_j = 0, var_direction = ACROSS, var_length = 2\<rparr>"

definition tee :: crossword where
  "tee = \<lparr>variables = [slot_low, slot_Y], words = [''ab'', ''cd''],
     overlaps = [(slot_low, slot_Y) \<mapsto> Some (0, 1), (slot_Y, slot_low) \<mapsto> Some (1, 0)],
     neighbors = (\<lambda>v. if v = slot_low then [slot_Y] else if v = slot_Y then [slot_low] else [])\<rparr>"

text \<open>
  Three-letter slots that cross at the last cell of \<open>slot_A\<close> and the first cell of
  \<open>slot_D\<close> (scenario B of the specification).
\<close>

definition slot_A :: variable where
  "slot_A = \<lparr>var_i = 0, var_j = 0, var_direction = ACROSS, var_length = 3\<rparr>"

definition slot_D :: variable where
  "slot_D = \<lparr>var_i = 0, var_j = 2, var_direction = DOWN, var_length = 3\<rparr>"

definition cat_tap :: crossword where
  "cat_tap = \<lparr>variables = [slot_A, slot_D], words = [''cat'', ''tap''],
     overlaps = [(slot_A, slot_D) \<mapsto> Some (2, 0), (slot_D, slot_A) \<mapsto> Some (0, 2)],
     neighbors = (\<lambda>v. if v = slot_A then [slot_D] else if v = slot_D then [slot_A] else [])\<rparr>"

text \<open>The domains of \<open>cat_tap\<close> after node consistency.\<close>

definition cat_tap_domains :: domains where
  "cat_tap_domains = [(slot_A, [''cat'', ''tap'']), (slot_D, [''cat'', ''tap''])]"

text \<open>
  A domain store for \<open>corner\<close> that has no solution, and the assignment with both
  slots mapped to \<open>None\<close>.
\<close>

definition dead_end_domains :: domains where
  "dead_end_domains = [(slot_X, [''ab'']), (slot_Y, [''cd''])]"

definition both_tried :: assignment where
  "both_tried = [(slot_X, None), (slot_Y, None)]"


section \<open>Dictionaries as association lists\<close>

lemma keys_update_present:
  "map_of ds k = Some v \<Longrightarrow> map fst (AList.update k v' ds) = map fst ds"
  by (induction ds) auto

lemma domain_of_update:
  "domain_of (AList.update k v ds) k' = (if k' = k then v else domain_of ds k')"
  by (simp add: domain_of_def AList.update_conv')

lemma map_of_key: "k \<in> fst ` set ds \<Longrightarrow> \<exists>v. map_of ds k = Some v"
  by (metis domIff dom_map_of_conv_image_fst not_Some_eq)

section \<open>Node consistency: what is pruned, and when it fails\<close>

text \<open>The invariant of the loop: the keys already visited are pruned, the others are
  untouched.\<close>

lemma enforce_loop_ok:
  assumes "enforce_loop vars ds = (Inr u, ds')" and "set vars \<subseteq> fst ` set ds"
  shows "map fst ds' = map fst ds \<and>
     (\<forall>v. domain_of ds' v = (if v \<in> set vars then fits v (domain_of ds v) else domain_of ds v)) \<and>
     (\<forall>v \<in> set vars. fits v (domain_of ds v) \<noteq> [])"
  using assms
proof (induction vars arbitrary: ds)
  case Nil
  then show ?case by simp
next
  case (Cons var vars)
  from Cons.prems(2) obtain ws where ws: "map_of ds var = Some ws"
    using map_of_key[of var ds] by auto
  let ?ds1 = "AList.update var (fits var ws) ds"
  from Cons.prems(1) ws have ne: "fits var ws \<noteq> []" and rest: "enforce_loop vars ?ds1 = (Inr u, ds')"
    by (auto simp: fits_def split: if_splits)
  have keys1: "map fst ?ds1 = map fst ds" using ws by (rule keys_update_present)
  with Cons.prems(2) have "set vars \<subseteq> fst ` set ?ds1"
    by (metis list.set_map set_subset_Cons subset_trans)
  from Cons.IH[OF rest this] have
    k: "map fst ds' = map fst ?ds1" and
    d: "\<And>v. domain_of ds' v = (if v \<in> set vars then fits v (domain_of ?ds1 v) else domain_of ?ds1 v)" and
    n: "\<And>v. v \<in> set vars \<Longrightarrow> fits v (domain_of ?ds1 v) \<noteq> []"
    by auto
  have dv: "domain_of ds var = ws" using ws by (simp add: domain_of_def)
  have idem: "fits var (fits var ws) = fits var ws" by (simp add: fits_def)
  have "map fst ds' = map fst ds" using k keys1 by simp
  moreover have "domain_of ds' v = (if v \<in> set (var # vars) then fits v (domain_of ds v) else domain_of ds v)" for v
    using d[of v] dv idem by (simp add: domain_of_update)
  moreover have "fits v (domain_of ds v) \<noteq> []" if "v \<in> set (var # vars)" for v
  proof (cases "v = var")
    case True
    with ne dv show ?thesis by simp
  next
    case False
    with that have "v \<in> set vars" by simp
    from n[OF this] False show ?thesis by (simp add: domain_of_update)
  qed
  ultimately show ?case by blast
qed

lemma enforce_loop_error:
  assumes "enforce_loop vars ds = (Inl e, ds')" and "set vars \<subseteq> fst ` set ds"
  shows "\<exists>v \<in> set vars. e = ValueError_no_values v \<and> fits v (domain_of ds v) = []"
  using assms
proof (induction vars arbitrary: ds)
  case Nil
  then show ?case by simp
next
  case (Cons var vars)
  from Cons.prems(2) obtain ws where ws: "map_of ds var = Some ws"
    using map_of_key[of var ds] by auto
  have dv: "domain_of ds var = ws" using ws by (simp add: domain_of_def)
  let ?ds1 = "AList.update var (fits var ws) ds"
  show ?case
  proof (cases "fits var ws = []")
    case True
    with Cons.prems(1) ws have "e = ValueError_no_values var" by (simp add: fits_def)
    with True dv show ?thesis by simp
  next
    case False
    with Cons.prems(1) ws have rest: "enforce_loop vars ?ds1 = (Inl e, ds')"
      by (simp add: fits_def)
    have "map fst ?ds1 = map fst ds" using ws by (rule keys_update_present)
    with Cons.prems(2) have "set vars \<subseteq> fst ` set ?ds1"
      by (metis list.set_map set_subset_Cons subset_trans)
    from Cons.IH[OF rest this] obtain v where
      v: "v \<in> set vars" "e = ValueError_no_values v" "fits v (domain_of ?ds1 v) = []"
      by auto
    have idem: "fits var (fits var ws) = fits var ws" by (simp add: fits_def)
    from v(3) False idem have "v \<noteq> var" by (auto simp: domain_of_update)
    with v show ?thesis by (auto simp: domain_of_update)
  qed
qed

lemma domain_of_init:
  "domain_of (init_domains cw) v = (if v \<in> set (variables cw) then words cw else [])"
proof -
  have "map_of (map (\<lambda>var. (var, ws)) vs) v = (if v \<in> set vs then Some ws else None)"
    for vs and ws :: "string list"
    by (induction vs) auto
  then show ?thesis by (simp add: domain_of_def init_domains_def)
qed

lemma keys_init: "map fst (init_domains cw) = variables cw"
  by (simp add: init_domains_def comp_def)

text \<open>
  C9. \<open>enforce_node_consistency\<close> either returns, and then it has kept the keys and
  left to every variable exactly the words of its domain that have its length, none
  of these pruned domains being empty; or it raises the \<open>ValueError\<close> that names a
  variable of the dictionary whose pruned domain is empty. So it raises exactly when
  some pruned domain is empty. When the word list has no word of the length of some
  variable, \<open>solve\<close> ends in that \<open>ValueError\<close>, naming such a variable, and does not
  return \<open>None\<close>.
\<close>

theorem enforce_node_consistency_prunes:
  "(case enforce_node_consistency ds of
      (Inr u, ds') \<Rightarrow>
        map fst ds' = map fst ds \<and>
        (\<forall>v. domain_of ds' v = fits v (domain_of ds v)) \<and>
        (\<forall>v \<in> fst ` set ds. fits v (domain_of ds v) \<noteq> [])
    | (Inl e, ds') \<Rightarrow>
        (\<exists>v \<in> fst ` set ds. e = ValueError_no_values v \<and> fits v (domain_of ds v) = [])) \<and>
   ((\<exists>v \<in> set (variables cw). fits v (words cw) = []) \<longrightarrow>
    (\<exists>v \<in> set (variables cw). fits v (words cw) = [] \<and> solve cw = Inl (ValueError_no_values v)))"
proof -
  have keys: "set (map fst ds) \<subseteq> fst ` set ds" for ds :: domains by simp
  have out: "domain_of ds v = []" if "v \<notin> fst ` set ds" for v and ds :: domains
  proof -
    from that have "map_of ds v = None" by (simp add: map_of_eq_None_iff)
    then show ?thesis by (simp add: domain_of_def)
  qed
  have first: "(case enforce_node_consistency ds of
      (Inr u, ds') \<Rightarrow>
        map fst ds' = map fst ds \<and>
        (\<forall>v. domain_of ds' v = fits v (domain_of ds v)) \<and>
        (\<forall>v \<in> fst ` set ds. fits v (domain_of ds v) \<noteq> [])
    | (Inl e, ds') \<Rightarrow>
        (\<exists>v \<in> fst ` set ds. e = ValueError_no_values v \<and> fits v (domain_of ds v) = []))" for ds
  proof (cases "enforce_node_consistency ds")
    case (Pair r ds')
    show ?thesis
    proof (cases r)
      case (Inl e)
      with Pair have "enforce_loop (map fst ds) ds = (Inl e, ds')"
        by (simp add: enforce_node_consistency_def)
      from enforce_loop_error[OF this keys] Pair Inl show ?thesis by simp
    next
      case (Inr u)
      with Pair have "enforce_loop (map fst ds) ds = (Inr u, ds')"
        by (simp add: enforce_node_consistency_def)
      from enforce_loop_ok[OF this keys] have
        k: "map fst ds' = map fst ds" and
        d: "\<And>v. domain_of ds' v = (if v \<in> fst ` set ds then fits v (domain_of ds v) else domain_of ds v)" and
        n: "\<forall>v \<in> fst ` set ds. fits v (domain_of ds v) \<noteq> []"
        by auto
      have "domain_of ds' v = fits v (domain_of ds v)" for v
        using d[of v] out[of v ds] by (auto simp: fits_def)
      with k n Pair Inr show ?thesis by simp
    qed
  qed
  have second: "\<exists>v \<in> set (variables cw). fits v (words cw) = [] \<and> solve cw = Inl (ValueError_no_values v)"
    if bad: "\<exists>v \<in> set (variables cw). fits v (words cw) = []"
  proof (cases "enforce_node_consistency (init_domains cw)")
    case (Pair r ds')
    have ks: "fst ` set (init_domains cw) = set (variables cw)"
      using keys_init[of cw] by (metis list.set_map)
    show ?thesis
    proof (cases r)
      case (Inl e)
      with first[of "init_domains cw"] Pair ks obtain v where
        "v \<in> set (variables cw)" "e = ValueError_no_values v" "fits v (domain_of (init_domains cw) v) = []"
        by auto
      moreover have "solve cw = Inl e" using Pair Inl by (simp add: solve_def)
      ultimately show ?thesis by (auto simp: domain_of_init)
    next
      case (Inr u)
      with first[of "init_domains cw"] Pair ks
      have "\<forall>v \<in> set (variables cw). fits v (domain_of (init_domains cw) v) \<noteq> []" by simp
      with bad show ?thesis by (auto simp: domain_of_init)
    qed
  qed
  from first[of ds] second show ?thesis by blast
qed

theorem enforce_node_consistency_prunes_witness:
  "enforce_node_consistency corner_domains = (Inr (), corner_domains) \<and>
   (\<exists>v \<in> set (variables no_long_word). fits v (words no_long_word) = []) \<and>
   solve no_long_word = Inl (ValueError_no_values slot_long)"
proof -
  have bad: "\<exists>v \<in> set (variables no_long_word). fits v (words no_long_word) = []"
    by code_simp
  have ok: "enforce_node_consistency corner_domains = (Inr (), corner_domains)"
    by code_simp
  have "solve no_long_word = Inl (ValueError_no_values slot_long)"
    by code_simp
  with bad ok show ?thesis
    using enforce_node_consistency_prunes[of corner_domains no_long_word] by simp
qed

section \<open>Arc consistency only removes words\<close>

text \<open>What a call of \<open>revise\<close> does to the domains, whatever it returns or raises.\<close>

lemma revise_cases:
  assumes "revise cw x y ds = (r, ds')"
  obtains (same) "ds' = ds" "r \<noteq> Inr True"
  | (removed) i j dx rem where
      "overlaps cw (x, y) = Some (Some (i, j))" "map_of ds x = Some dx"
      "values_to_remove ds y i j dx = Inr rem" "rem \<noteq> []"
      "ds' = AList.update x (filter (\<lambda>vx. vx \<notin> set rem) dx) ds" "r = Inr True"
proof (cases "overlaps cw (x, y)")
  case None
  with assms same show ?thesis by (auto simp: revise_def)
next
  case (Some ov)
  show ?thesis
  proof (cases ov)
    case None
    with Some assms same show ?thesis by (auto simp: revise_def)
  next
    case ij: (Some p)
    obtain i j where p: "p = (i, j)" by (cases p)
    show ?thesis
    proof (cases "map_of ds x")
      case None
      with Some ij p assms same show ?thesis by (auto simp: revise_def)
    next
      case dx: (Some dx)
      show ?thesis
      proof (cases "values_to_remove ds y i j dx")
        case (Inl e)
        with Some ij p dx assms same show ?thesis by (auto simp: revise_def)
      next
        case (Inr rem)
        show ?thesis
        proof (cases "rem = []")
          case True
          with Some ij p dx Inr assms same show ?thesis by (auto simp: revise_def)
        next
          case False
          with Some ij p dx Inr assms have
            "ds' = AList.update x (filter (\<lambda>vx. vx \<notin> set rem) dx) ds" "r = Inr True"
            by (simp_all add: revise_def)
          with Some ij p dx Inr False removed show ?thesis by simp
        qed
      qed
    qed
  qed
qed

lemma revise_frame:
  assumes "revise cw x y ds = (r, ds')"
  shows "map fst ds' = map fst ds"
    and "set (domain_of ds' v) \<subseteq> set (domain_of ds v)"
    and "v \<noteq> x \<Longrightarrow> map_of ds' v = map_of ds v"
proof -
  show "map fst ds' = map fst ds"
    using assms
  proof (cases rule: revise_cases)
    case same
    then show ?thesis by simp
  next
    case (removed i j dx rem)
    then show ?thesis by (simp add: keys_update_present)
  qed
  show "set (domain_of ds' v) \<subseteq> set (domain_of ds v)"
    using assms
  proof (cases rule: revise_cases)
    case same
    then show ?thesis by simp
  next
    case (removed i j dx rem)
    have "domain_of ds x = dx" using removed(2) by (simp add: domain_of_def)
    then show ?thesis unfolding removed(5) by (auto simp: domain_of_update)
  qed
  show "map_of ds' v = map_of ds v" if "v \<noteq> x"
    using assms
  proof (cases rule: revise_cases)
    case same
    then show ?thesis by simp
  next
    case (removed i j dx rem)
    with that show ?thesis by (simp add: AList.update_conv')
  qed
qed

lemma pruned_from_refl: "pruned_from ds ds"
  by (simp add: pruned_from_def)

lemma pruned_from_trans: "pruned_from a b \<Longrightarrow> pruned_from b c \<Longrightarrow> pruned_from a c"
  unfolding pruned_from_def by fastforce

lemma revise_pruned: "revise cw x y ds = (r, ds') \<Longrightarrow> pruned_from ds ds'"
  unfolding pruned_from_def using revise_frame(1,2) by blast

lemma ac3_loop_pruned:
  "ac3_loop cw queue ds = (r, ds') \<Longrightarrow> pruned_from ds ds'"
proof (induction cw queue ds arbitrary: r ds' rule: ac3_loop.induct)
  case (1 cw ds)
  then show ?case by (simp add: pruned_from_refl)
next
  case (2 cw X Y queue ds)
  obtain r1 ds1 where rev: "revise cw X Y ds = (r1, ds1)" by (cases "revise cw X Y ds")
  have fr: "pruned_from ds ds1" using rev by (rule revise_pruned)
  show ?case
  proof (cases r1)
    case (Inl e)
    with "2.prems" rev have "ds' = ds1" by simp
    with fr show ?thesis by simp
  next
    case (Inr b)
    show ?thesis
    proof (cases b)
      case False
      with "2.prems" rev Inr have run: "ac3_loop cw queue ds1 = (r, ds')" by simp
      have "pruned_from ds1 ds'"
        using "2.IH"(2)[of r1 ds1 b r ds'] rev Inr False run by simp
      with fr show ?thesis by (rule pruned_from_trans)
    next
      case True
      show ?thesis
      proof (cases "map_of ds1 X")
        case None
        with "2.prems" rev Inr True have "ds' = ds1" by simp
        with fr show ?thesis by simp
      next
        case (Some dx)
        show ?thesis
        proof (cases "dx = []")
          case e: True
          with "2.prems" rev Inr True Some have "ds' = ds1" by simp
          with fr show ?thesis by simp
        next
          case ne: False
          with "2.prems" rev Inr True Some have run:
            "ac3_loop cw (queue @ map (\<lambda>Z. (Z, X)) (filter (\<lambda>Z. Z \<noteq> Y) (neighbors cw X))) ds1 = (r, ds')"
            by simp
          have "pruned_from ds1 ds'"
            using "2.IH"(1)[of r1 ds1 b dx r ds'] rev Inr True Some ne run by simp
          with fr show ?thesis by (rule pruned_from_trans)
        qed
      qed
    qed
  qed
qed

text \<open>
  C8. Whatever \<open>revise(x, y)\<close> returns or raises, afterwards the dictionary has the
  same keys, the domain of every variable is a subset of what it was, and the entry of
  every variable other than \<open>x\<close> is unchanged; without a recorded overlap (no key
  \<open>(x, y)\<close>, or the value \<open>None\<close>) it returns \<open>False\<close> and changes nothing. Whatever
  \<open>ac3\<close> returns or raises, on any list of arcs or on all of them, the keys are the
  same and every domain is a subset of what it was.
\<close>

theorem domains_only_shrink:
  "map fst (snd (revise cw x y ds)) = map fst ds \<and>
   (\<forall>v. set (domain_of (snd (revise cw x y ds)) v) \<subseteq> set (domain_of ds v)) \<and>
   (\<forall>v. v \<noteq> x \<longrightarrow> map_of (snd (revise cw x y ds)) v = map_of ds v) \<and>
   (overlaps cw (x, y) \<in> {None, Some None} \<longrightarrow> revise cw x y ds = (Inr False, ds)) \<and>
   map fst (snd (ac3 cw arcs ds)) = map fst ds \<and>
   (\<forall>v. set (domain_of (snd (ac3 cw arcs ds)) v) \<subseteq> set (domain_of ds v))"
proof -
  obtain r ds' where rev: "revise cw x y ds = (r, ds')" by (cases "revise cw x y ds")
  obtain r2 ds2 where ac: "ac3 cw arcs ds = (r2, ds2)" by (cases "ac3 cw arcs ds")
  then have "ac3_loop cw (case arcs of None \<Rightarrow> get_arcs cw | Some given \<Rightarrow> given) ds = (r2, ds2)"
    by (simp add: ac3_def)
  then have a: "pruned_from ds ds2" by (rule ac3_loop_pruned)
  have b: "overlaps cw (x, y) \<in> {None, Some None} \<longrightarrow> revise cw x y ds = (Inr False, ds)"
    by (auto simp: revise_def)
  have c: "map fst ds' = map fst ds" using rev by (rule revise_frame(1))
  have d: "\<forall>v. set (domain_of ds' v) \<subseteq> set (domain_of ds v)"
    using revise_frame(2)[OF rev] by blast
  have e: "\<forall>v. v \<noteq> x \<longrightarrow> map_of ds' v = map_of ds v"
    using revise_frame(3)[OF rev] by blast
  from a have f: "map fst ds2 = map fst ds" "\<forall>v. set (domain_of ds2 v) \<subseteq> set (domain_of ds v)"
    by (simp_all add: pruned_from_def)
  from b c d e f show ?thesis unfolding rev ac snd_conv by blast
qed

theorem domains_only_shrink_witness:
  "revise corner slot_X slot_Y corner_domains =
     (Inr True, [(slot_X, [''cd'']), (slot_Y, [''cd'', ''ce'', ''cf''])]) \<and>
   set (domain_of (snd (revise corner slot_X slot_Y corner_domains)) slot_X)
     \<subseteq> set (domain_of corner_domains slot_X) \<and>
   slot_Y \<noteq> slot_X \<and>
   map_of (snd (revise corner slot_X slot_Y corner_domains)) slot_Y = map_of corner_domains slot_Y \<and>
   overlaps corner (slot_X, slot_X) \<in> {None, Some None} \<and>
   revise corner slot_X slot_X corner_domains = (Inr False, corner_domains)"
proof -
  have r: "revise corner slot_X slot_Y corner_domains =
     (Inr True, [(slot_X, [''cd'']), (slot_Y, [''cd'', ''ce'', ''cf''])])"
    by code_simp
  have ne: "slot_Y \<noteq> slot_X" by code_simp
  have ov: "overlaps corner (slot_X, slot_X) \<in> {None, Some None}"
    by (simp add: corner_def slot_X_def slot_Y_def)
  note t1 = domains_only_shrink[of corner slot_X slot_Y corner_domains None]
  note t2 = domains_only_shrink[of corner slot_X slot_X corner_domains None]
  from t1 have a: "set (domain_of (snd (revise corner slot_X slot_Y corner_domains)) slot_X)
     \<subseteq> set (domain_of corner_domains slot_X)"
    by blast
  from t1 ne have b:
    "map_of (snd (revise corner slot_X slot_Y corner_domains)) slot_Y = map_of corner_domains slot_Y"
    by blast
  from t2 ov have c: "revise corner slot_X slot_X corner_domains = (Inr False, corner_domains)"
    by blast
  from r a ne b ov c show ?thesis by (intro conjI)
qed

section \<open>The order of the candidate words\<close>

lemma length_minus_unequal:
  "int (length xs) - int (length (filter (\<lambda>v. v \<noteq> val) xs)) = int (length (filter (\<lambda>v. v = val) xs))"
  using sum_length_filter_compl[of "\<lambda>v. v = val" xs] by simp

lemma count_conflicts_value:
  assumes "\<forall>n \<in> set ns. n \<notin> fst ` set a \<longrightarrow> n \<in> fst ` set ds"
  shows "count_conflicts ds a val ns =
     Inr (\<Sum>n\<leftarrow>filter (\<lambda>n. n \<notin> fst ` set a) ns. int (length (filter (\<lambda>v. v = val) (domain_of ds n))))"
  using assms
proof (induction ns)
  case Nil
  then show ?case by simp
next
  case (Cons n ns)
  show ?case
  proof (cases "n \<in> fst ` set a")
    case True
    with Cons show ?thesis by simp
  next
    case False
    with Cons.prems have "n \<in> fst ` set ds" by simp
    then obtain dn where dn: "map_of ds n = Some dn"
      by (metis domIff dom_map_of_conv_image_fst not_Some_eq)
    with Cons False show ?thesis
      by (simp add: domain_of_def length_minus_unequal)
  qed
qed

lemma keyed_total:
  assumes "\<forall>x \<in> set xs. f x = Inr (k x)"
  shows "keyed f xs = Inr (map (\<lambda>x. (k x, x)) xs)"
  using assms by (induction xs) auto

lemma insort_key_decorated:
  assumes "\<forall>p \<in> set ps. fst p = k (snd p)"
  shows "map snd (insort_key fst (k x, x) ps) = insort_key k x (map snd ps)"
  using assms by (induction ps) auto

lemma decorated_insort_key:
  assumes "\<forall>p \<in> set ps. fst p = k (snd p)"
  shows "\<forall>p \<in> set (insort_key fst (k x, x) ps). fst p = k (snd p)"
  using assms by (auto simp: set_insort_key)

lemma sort_key_decorated:
  "map snd (sort_key fst (map (\<lambda>x. (k x, x)) xs)) = sort_key k xs
   \<and> (\<forall>p \<in> set (sort_key fst (map (\<lambda>x. (k x, x)) xs)). fst p = k (snd p))"
  by (induction xs) (auto simp: insort_key_decorated set_insort_key)

text \<open>
  C6, as amended. When \<open>var\<close> is a key of the domains, and so is every neighbor of
  \<open>var\<close> that is no key of the assignment, \<open>order_domain_values\<close> returns the words
  of the domain of \<open>var\<close>, each as often as it occurs there, in ascending order of
  \<open>equal_score\<close>: the number of entries equal to the candidate in the domains of the
  neighbors that are no key of the assignment. It is the stable sort of the domain by
  that score.
\<close>

theorem order_domain_values_sorted:
  assumes "map_of ds var = Some dv"
    and "\<forall>n \<in> set (neighbors cw var). n \<notin> fst ` set a \<longrightarrow> n \<in> fst ` set ds"
  shows "\<exists>ws. order_domain_values cw ds var a = Inr ws \<and>
           mset ws = mset dv \<and>
           sorted (map (equal_score cw ds a var) ws) \<and>
           ws = sort_key (equal_score cw ds a var) dv"
proof -
  have "\<forall>val \<in> set dv. count_conflicts ds a val (neighbors cw var) = Inr (equal_score cw ds a var val)"
    using count_conflicts_value[OF assms(2)]
    by (simp add: equal_score_def unassigned_neighbors_def)
  then have "keyed (\<lambda>val. count_conflicts ds a val (neighbors cw var)) dv
      = Inr (map (\<lambda>val. (equal_score cw ds a var val, val)) dv)"
    by (rule keyed_total)
  with assms(1) have "order_domain_values cw ds var a = Inr (sort_key (equal_score cw ds a var) dv)"
    by (simp add: order_domain_values_def sort_key_decorated)
  then show ?thesis by simp
qed

theorem order_domain_values_sorted_witness:
  "order_domain_values corner corner_domains slot_X [] = Inr [''ab'', ''cd''] \<and>
   equal_score corner corner_domains [] slot_X ''ab'' = 0 \<and>
   equal_score corner corner_domains [] slot_X ''cd'' = 1"
proof -
  have dv: "map_of corner_domains slot_X = Some [''ab'', ''cd'']"
    by code_simp
  have keys: "\<forall>n \<in> set (neighbors corner slot_X). n \<notin> fst ` set [] \<longrightarrow> n \<in> fst ` set corner_domains"
    by (simp add: corner_def corner_domains_def)
  have "sort_key (equal_score corner corner_domains [] slot_X) [''ab'', ''cd''] = [''ab'', ''cd'']"
    by code_simp
  moreover have "equal_score corner corner_domains [] slot_X ''ab'' = 0" by code_simp
  moreover have "equal_score corner corner_domains [] slot_X ''cd'' = 1" by code_simp
  ultimately show ?thesis
    using order_domain_values_sorted[OF dv keys] by auto
qed

text \<open>
  C6 as stated fails: on \<open>corner\<close> the word \<open>ab\<close> comes before \<open>cd\<close>, though the
  number of entries of the neighbor's domain that differ from the candidate is 3 for
  \<open>ab\<close> and 2 for \<open>cd\<close>.
\<close>

theorem order_domain_values_not_by_unequal_count:
  "order_domain_values corner corner_domains slot_X [] = Inr [''ab'', ''cd''] \<and>
   spec_score corner corner_domains [] slot_X ''ab'' = 3 \<and>
   spec_score corner corner_domains [] slot_X ''cd'' = 2 \<and>
   \<not> sorted (map (spec_score corner corner_domains [] slot_X) [''ab'', ''cd''])"
  by code_simp

section \<open>The choice of the next variable\<close>

lemma key_less_trans: "key_less p q \<Longrightarrow> key_less q r \<Longrightarrow> key_less p r"
  by (auto simp: key_less_def)

lemma key_less_total: "\<not> key_less p q \<Longrightarrow> \<not> key_less q r \<Longrightarrow> \<not> key_less p r"
  by (auto simp: key_less_def)

lemma min_by_below_start: "\<not> key_less (f m) (f (min_by f m xs))"
proof (induction xs arbitrary: m)
  case Nil
  show ?case by (simp add: key_less_def)
next
  case (Cons x xs)
  show ?case
  proof (cases "key_less (f x) (f m)")
    case True
    have "\<not> key_less (f m) (f x)" using True by (auto simp: key_less_def)
    moreover have "\<not> key_less (f x) (f (min_by f x xs))" by (rule Cons.IH)
    ultimately have "\<not> key_less (f m) (f (min_by f x xs))" by (rule key_less_total)
    with True show ?thesis by simp
  next
    case False
    with Cons.IH[of m] show ?thesis by simp
  qed
qed

lemma min_by_least: "x \<in> set (m # xs) \<Longrightarrow> \<not> key_less (f x) (f (min_by f m xs))"
proof (induction xs arbitrary: m)
  case Nil
  then show ?case by (simp add: key_less_def)
next
  case (Cons y ys)
  let ?m' = "if key_less (f y) (f m) then y else m"
  have step: "min_by f m (y # ys) = min_by f ?m' ys" by simp
  from Cons.prems consider "x = m" | "x = y" | "x \<in> set ys" by auto
  then show ?case
  proof cases
    case 1
    then show ?thesis using min_by_below_start[of f m "y # ys"] by simp
  next
    case 2
    show ?thesis
    proof (cases "key_less (f y) (f m)")
      case True
      then show ?thesis using 2 min_by_below_start[of f y ys] by simp
    next
      case False
      moreover have "\<not> key_less (f m) (f (min_by f m ys))" by (rule min_by_below_start)
      ultimately have "\<not> key_less (f y) (f (min_by f m ys))" by (rule key_less_total)
      with False 2 show ?thesis by simp
    qed
  next
    case 3
    then have "x \<in> set (?m' # ys)" by simp
    then have "\<not> key_less (f x) (f (min_by f ?m' ys))" by (rule Cons.IH)
    then show ?thesis by simp
  qed
qed






section \<open>The solver after a failed propagation\<close>

lemma ac3_loop_False_empty:
  "ac3_loop cw queue ds = (Inr False, ds') \<Longrightarrow> \<exists>X. map_of ds' X = Some []"
proof (induction cw queue ds rule: ac3_loop.induct)
  case (1 cw ds)
  then show ?case by simp
next
  case (2 cw X Y queue ds)
  obtain r1 ds1 where rev: "revise cw X Y ds = (r1, ds1)" by (cases "revise cw X Y ds")
  show ?case
  proof (cases r1)
    case (Inl e)
    with "2.prems" rev show ?thesis by simp
  next
    case (Inr b)
    show ?thesis
    proof (cases b)
      case False
      with "2.prems" rev Inr have "ac3_loop cw queue ds1 = (Inr False, ds')" by simp
      then show ?thesis using "2.IH"(2)[of r1 ds1 b] rev Inr False by simp
    next
      case True
      show ?thesis
      proof (cases "map_of ds1 X")
        case None
        with "2.prems" rev Inr True show ?thesis by simp
      next
        case (Some dx)
        show ?thesis
        proof (cases "dx = []")
          case e: True
          with "2.prems" rev Inr True Some have "ds' = ds1" by simp
          with Some e show ?thesis by auto
        next
          case ne: False
          with "2.prems" rev Inr True Some have
            "ac3_loop cw (queue @ map (\<lambda>Z. (Z, X)) (filter (\<lambda>Z. Z \<noteq> Y) (neighbors cw X))) ds1 = (Inr False, ds')"
            by simp
          then show ?thesis using "2.IH"(1)[of r1 ds1 b dx] rev Inr True Some ne by simp
        qed
      qed
    qed
  qed
qed

lemma backtrack_empty_domain:
  assumes "map_of ds X = Some []" and "variables cw \<noteq> []"
  shows "backtrack cw ds [] = (Inr None, [])"
proof -
  from assms(1) have X: "X \<in> set (map fst ds)"
    by (metis map_of_SomeD list.set_map image_eqI fst_conv)
  then have un: "unassigned ds [] = map fst ds" by (simp add: unassigned_def)
  with X obtain m xs where ms: "unassigned ds [] = m # xs" by (cases "map fst ds") auto
  define var where "var = min_by (select_key ds) m xs"
  have sel: "select_unassigned_variable ds [] = Inr var"
    by (simp add: select_unassigned_variable_def ms var_def)
  have "X \<in> set (m # xs)" using X un ms by simp
  then have "\<not> key_less (select_key ds X) (select_key ds var)"
    unfolding var_def by (rule min_by_least)
  moreover have "domain_of ds X = []" using assms(1) by (simp add: domain_of_def)
  ultimately have empty: "domain_of ds var = []"
    by (auto simp: key_less_def select_key_def)
  have "var \<in> set (map fst ds)"
    using select_unassigned_variable_in[OF sel] by (simp add: unassigned_def)
  then obtain dv where dv: "map_of ds var = Some dv"
    using map_of_key[of var ds] by auto
  with empty have "dv = []" by (simp add: domain_of_def)
  with dv have ord: "order_domain_values cw ds var [] = Inr []"
    by (simp add: order_domain_values_def)
  from assms(2) have "\<not> assignment_complete cw []"
    by (cases "variables cw") (simp_all add: assignment_complete_def)
  with sel ord show ?thesis by simp
qed

text \<open>
  C3, as amended. When node consistency succeeds and \<open>ac3\<close> on all arcs returns
  \<open>False\<close>, \<open>solve\<close> returns \<open>None\<close>. It does not do so by skipping the search: it
  calls \<open>backtrack\<close> all the same, on the propagated domains, and \<open>backtrack\<close> returns
  \<open>None\<close> at once, the assignment still empty, because the variable it selects has an
  empty domain.
\<close>

theorem solve_after_failed_ac3:
  assumes "enforce_node_consistency (init_domains cw) = (Inr u, ds1)"
    and "ac3 cw None ds1 = (Inr False, ds2)"
  shows "solve cw = Inr None \<and>
         solve_calls cw = [Call_enforce_node_consistency, Call_ac3, Call_backtrack] \<and>
         backtrack cw ds2 [] = (Inr None, [])"
proof -
  from assms(2) have loop: "ac3_loop cw (get_arcs cw) ds1 = (Inr False, ds2)"
    by (simp add: ac3_def)
  then obtain X where X: "map_of ds2 X = Some []"
    using ac3_loop_False_empty by blast
  have "variables cw \<noteq> []"
  proof
    assume "variables cw = []"
    then have "get_arcs cw = []" by (simp add: get_arcs_def)
    with loop show False by simp
  qed
  with X have bt: "backtrack cw ds2 [] = (Inr None, [])" by (rule backtrack_empty_domain)
  with assms show ?thesis by (simp add: solve_def solve_calls_def)
qed

theorem solve_after_failed_ac3_witness:
  "enforce_node_consistency (init_domains tee) =
     (Inr (), [(slot_low, [''ab'', ''cd'']), (slot_Y, [''ab'', ''cd''])]) \<and>
   ac3 tee None [(slot_low, [''ab'', ''cd'']), (slot_Y, [''ab'', ''cd''])] =
     (Inr False, [(slot_low, []), (slot_Y, [''ab'', ''cd''])]) \<and>
   solve tee = Inr None \<and>
   backtrack tee [(slot_low, []), (slot_Y, [''ab'', ''cd''])] [] = (Inr None, [])"
proof -
  have e: "enforce_node_consistency (init_domains tee) =
     (Inr (), [(slot_low, [''ab'', ''cd'']), (slot_Y, [''ab'', ''cd''])])"
    by code_simp
  have a: "ac3 tee None [(slot_low, [''ab'', ''cd'']), (slot_Y, [''ab'', ''cd''])] =
     (Inr False, [(slot_low, []), (slot_Y, [''ab'', ''cd''])])"
    by code_simp
  from solve_after_failed_ac3[OF e a] e a show ?thesis by simp
qed

text \<open>
  C3 as stated fails: on \<open>tee\<close> the propagation reports \<open>False\<close> and \<open>solve\<close> goes on
  to call \<open>backtrack\<close>.
\<close>

theorem solve_runs_backtrack_after_failed_ac3:
  "fst (ac3 tee None (snd (enforce_node_consistency (init_domains tee)))) = Inr False \<and>
   solve_calls tee = [Call_enforce_node_consistency, Call_ac3, Call_backtrack]"
  by code_simp

section \<open>Returned solutions are valid\<close>

lemma check_neighbors_True:
  assumes "check_neighbors cw a var val ns = Inr True"
    and "other \<in> set ns"
    and "map_of a other = Some (Some oval)"
    and "overlaps cw (var, other) = Some (Some (i, j))"
  shows "i < length val \<and> j < length oval \<and> val ! i = oval ! j"
  using assms
proof (induction ns)
  case Nil
  then show ?case by simp
next
  case (Cons n ns)
  show ?case
  proof (cases "n = other")
    case True
    with Cons.prems show ?thesis by (simp split: if_splits)
  next
    case False
    with Cons.prems have "other \<in> set ns" by simp
    moreover from Cons.prems(1) have "check_neighbors cw a var val ns = Inr True"
      by (simp split: option.splits prod.splits if_splits)
    ultimately show ?thesis using Cons.IH Cons.prems(3,4) by simp
  qed
qed

lemma check_items_True:
  assumes "check_items cw a items = Inr True" and "(var, Some val) \<in> set items"
  shows "length val = var_length var \<and>
         check_neighbors cw a var val (neighbors cw var) = Inr True"
  using assms
proof (induction items)
  case Nil
  then show ?case by simp
next
  case (Cons item items)
  obtain v w where item: "item = (v, w)" by (cases item)
  show ?case
  proof (cases w)
    case None
    with Cons item show ?thesis by simp
  next
    case (Some word)
    from Cons.prems(1) item Some have
      len: "length word = var_length v" and
      nb: "check_neighbors cw a v word (neighbors cw v) = Inr True" and
      rest: "check_items cw a items = Inr True"
      by (simp_all split: if_splits sum.splits bool.splits)
    show ?thesis
    proof (cases "(var, Some val) = item")
      case True
      with item Some len nb show ?thesis by simp
    next
      case False
      with Cons.prems(2) have "(var, Some val) \<in> set items" by simp
      with rest Cons.IH show ?thesis by simp
    qed
  qed
qed

lemma consistent_valid:
  assumes "consistent cw r = Inr True"
  shows "valid_assignment cw r"
proof -
  from assms have dist: "distinct (map snd r)" and items: "check_items cw r r = Inr True"
    by (simp_all add: consistent_def split: if_splits)
  have uniq: "v1 = v2" if "map_of r v1 = Some (Some w)" "map_of r v2 = Some (Some w)" for v1 v2 w
  proof -
    from that have "(v1, Some w) \<in> set r" "(v2, Some w) \<in> set r"
      by (auto dest: map_of_SomeD)
    moreover from dist have "inj_on snd (set r)" by (simp add: distinct_map)
    ultimately have "(v1, Some w) = (v2, Some w)"
      using inj_onD[of snd "set r" "(v1, Some w)" "(v2, Some w)"] by simp
    then show ?thesis by simp
  qed
  have len: "length w = var_length v" if "map_of r v = Some (Some w)" for v w
    using check_items_True[OF items map_of_SomeD[OF that]] by simp
  have ov: "i < length w1 \<and> j < length w2 \<and> w1 ! i = w2 ! j"
    if "v2 \<in> set (neighbors cw v1)" "overlaps cw (v1, v2) = Some (Some (i, j))"
       "map_of r v1 = Some (Some w1)" "map_of r v2 = Some (Some w2)" for v1 v2 w1 w2 i j
  proof -
    from check_items_True[OF items map_of_SomeD[OF that(3)]]
    have "check_neighbors cw r v1 w1 (neighbors cw v1) = Inr True" by simp
    from check_neighbors_True[OF this that(1) that(4) that(2)] show ?thesis .
  qed
  show ?thesis unfolding valid_assignment_def using uniq len ov by blast
qed

lemma backtrack_returns_consistent:
  "backtrack cw ds a = (Inr (Some r), a') \<Longrightarrow>
     a' = r \<and> assignment_complete cw r \<and> (r = a \<or> consistent cw r = Inr True)"
  "try_words cw ds var ws a = (Inr (Some r), a') \<Longrightarrow>
     a' = r \<and> assignment_complete cw r \<and> consistent cw r = Inr True"
proof (induction cw ds a and cw ds var ws a arbitrary: r a' and r a' rule: backtrack_try_words.induct)
  case (1 cw ds a)
  show ?case
  proof (cases "assignment_complete cw a")
    case True
    with "1.prems" show ?thesis by auto
  next
    case False
    with "1.prems" obtain v cands where
      sel: "select_unassigned_variable ds a = Inr v" and
      ord: "order_domain_values cw ds v a = Inr cands" and
      run: "try_words cw ds v cands a = (Inr (Some r), a')"
      by (auto split: sum.splits)
    then show ?thesis using "1.IH"[of v cands r a'] False by simp
  qed
next
  case (2 cw ds var a)
  then show ?case by simp
next
  case (3 cw ds var word ws a)
  let ?a1 = "AList.update var (Some word) a"
  show ?case
  proof (cases "consistent cw ?a1")
    case (Inl e)
    with "3.prems" show ?thesis by simp
  next
    case (Inr b)
    show ?thesis
    proof (cases b)
      case False
      with "3.prems" Inr have
        "try_words cw ds var ws (AList.update var None ?a1) = (Inr (Some r), a')" by simp
      then show ?thesis using "3.IH"(3)[of b r a'] Inr False by simp
    next
      case True
      obtain res a2 where bt: "backtrack cw ds ?a1 = (res, a2)" by (cases "backtrack cw ds ?a1")
      show ?thesis
      proof (cases res)
        case (Inl e)
        with "3.prems" Inr True bt show ?thesis by simp
      next
        case res: (Inr found)
        show ?thesis
        proof (cases found)
          case None
          with "3.prems" Inr True bt res have
            "try_words cw ds var ws (AList.update var None a2) = (Inr (Some r), a')" by simp
          then show ?thesis using "3.IH"(2)[of b res a2 found r a'] Inr True bt res None by simp
        next
          case (Some r')
          with "3.prems" Inr True bt res have eq: "r' = r" "a2 = a'" by simp_all
          with bt res Some have "backtrack cw ds ?a1 = (Inr (Some r), a')" by simp
          then show ?thesis using "3.IH"(1)[of b r a'] Inr True by auto
        qed
      qed
    qed
  qed
qed

text \<open>
  C4. An assignment that \<open>solve\<close> returns is complete and valid. So is one that
  \<open>backtrack\<close> returns when it is started, as \<open>solve\<close> starts it, from an assignment
  that is consistent or not yet complete (a complete assignment is returned as it
  is, unchecked).
\<close>

theorem returned_solution_valid:
  "(backtrack cw ds a = (Inr (Some r), a') \<and>
      (consistent cw a = Inr True \<or> \<not> assignment_complete cw a) \<longrightarrow>
    assignment_complete cw r \<and> valid_assignment cw r) \<and>
   (solve cw = Inr (Some r) \<longrightarrow> assignment_complete cw r \<and> valid_assignment cw r)"
proof -
  have bt: "assignment_complete cw r \<and> valid_assignment cw r"
    if "backtrack cw ds a = (Inr (Some r), a')"
       "consistent cw a = Inr True \<or> \<not> assignment_complete cw a" for ds a r a'
  proof -
    from backtrack_returns_consistent(1)[OF that(1)] have
      c: "assignment_complete cw r" and d: "r = a \<or> consistent cw r = Inr True"
      by simp_all
    from c d that(2) have "consistent cw r = Inr True" by auto
    with c show ?thesis by (simp add: consistent_valid)
  qed
  have sv: "assignment_complete cw r \<and> valid_assignment cw r" if "solve cw = Inr (Some r)"
  proof -
    from that obtain ds2 where "fst (backtrack cw ds2 []) = Inr (Some r)"
      by (auto simp: solve_def split: prod.splits sum.splits)
    then obtain a' where "backtrack cw ds2 [] = (Inr (Some r), a')"
      by (cases "backtrack cw ds2 []") simp
    moreover have "consistent cw [] = Inr True" by (simp add: consistent_def)
    ultimately show ?thesis using bt by blast
  qed
  from bt sv show ?thesis by blast
qed

theorem returned_solution_valid_witness:
  "solve cat_tap = Inr (Some [(slot_A, Some ''cat''), (slot_D, Some ''tap'')]) \<and>
   assignment_complete cat_tap [(slot_A, Some ''cat''), (slot_D, Some ''tap'')] \<and>
   valid_assignment cat_tap [(slot_A, Some ''cat''), (slot_D, Some ''tap'')]"
proof -
  have s: "solve cat_tap = Inr (Some [(slot_A, Some ''cat''), (slot_D, Some ''tap'')])"
    by code_simp
  with returned_solution_valid[of cat_tap "[]" "[]"
      "[(slot_A, Some ''cat''), (slot_D, Some ''tap'')]" "[]"]
  show ?thesis by simp
qed

section \<open>Arc consistency after a successful propagation\<close>

lemma wf_crosswordD:
  assumes "wf_crossword cw" and "X \<in> set (variables cw)" and "Y \<in> set (neighbors cw X)"
  shows "Y \<noteq> X" and "Y \<in> set (variables cw)" and "X \<in> set (neighbors cw Y)"
    and "overlaps cw (Y, X) = Some (Some (j, i)) \<Longrightarrow> overlaps cw (X, Y) = Some (Some (i, j))"
proof -
  from assms have all:
    "Y \<noteq> X \<and> Y \<in> set (variables cw) \<and> X \<in> set (neighbors cw Y) \<and>
     (case overlaps cw (Y, X) of
        Some (Some (j, i)) \<Rightarrow> overlaps cw (X, Y) = Some (Some (i, j))
      | _ \<Rightarrow> True)"
    unfolding wf_crossword_def list_all_iff by blast
  then show "Y \<noteq> X" "Y \<in> set (variables cw)" "X \<in> set (neighbors cw Y)" by simp_all
  from all show "overlaps cw (X, Y) = Some (Some (i, j))" if "overlaps cw (Y, X) = Some (Some (j, i))"
    using that by simp
qed

lemma any_match_supported:
  "any_match vx i j dy = Inr b \<Longrightarrow> b = supported i j dy vx"
  by (induction dy) (auto simp: supported_def split: if_splits)

lemma values_to_remove_lookup:
  "values_to_remove ds y i j dx = Inr rem \<Longrightarrow> dx \<noteq> [] \<Longrightarrow> \<exists>dy. map_of ds y = Some dy"
  by (cases dx) (auto split: option.splits)

lemma values_to_remove_unsupported:
  assumes "values_to_remove ds y i j dx = Inr rem" and "map_of ds y = Some dy"
  shows "set rem = {vx \<in> set dx. \<not> supported i j dy vx}"
  using assms
proof (induction dx arbitrary: rem)
  case Nil
  then show ?case by simp
next
  case (Cons vx dx)
  from Cons.prems obtain found rest where
    f: "any_match vx i j dy = Inr found" and
    r: "values_to_remove ds y i j dx = Inr rest" and
    rem: "rem = (if found then rest else vx # rest)"
    by (auto split: sum.splits)
  from f have "found = supported i j dy vx" by (rule any_match_supported)
  moreover from Cons.IH[OF r Cons.prems(2)] have "set rest = {vx \<in> set dx. \<not> supported i j dy vx}" .
  ultimately show ?case using rem by auto
qed

lemma revise_True_result:
  assumes "revise cw X Y ds = (Inr True, ds')"
  obtains i j dx dy where
    "overlaps cw (X, Y) = Some (Some (i, j))" "map_of ds X = Some dx" "map_of ds Y = Some dy"
    "ds' = AList.update X (filter (supported i j dy) dx) ds"
  using assms
proof (cases rule: revise_cases)
  case same
  then show ?thesis by simp
next
  case (removed i j dx rem)
  from values_to_remove_subset[OF removed(3)] removed(4) have "dx \<noteq> []" by auto
  with values_to_remove_lookup[OF removed(3)] obtain dy where dy: "map_of ds Y = Some dy" by auto
  from values_to_remove_unsupported[OF removed(3) dy]
  have "filter (\<lambda>vx. vx \<notin> set rem) dx = filter (supported i j dy) dx"
    by (intro filter_cong) auto
  with removed dy that show ?thesis by simp
qed

lemma revise_False_result:
  assumes "revise cw X Y ds = (Inr False, ds')"
  shows "ds' = ds" and "arc_consistent cw ds X Y"
proof -
  from assms show "ds' = ds" by (rule revise_not_True_same) simp
  show "arc_consistent cw ds X Y"
  proof (cases "overlaps cw (X, Y)")
    case None
    then show ?thesis by (simp add: arc_consistent_def)
  next
    case (Some ov)
    show ?thesis
    proof (cases ov)
      case None
      with Some show ?thesis by (simp add: arc_consistent_def)
    next
      case ij: (Some p)
      obtain i j where p: "p = (i, j)" by (cases p)
      from assms Some ij p obtain dx where
        dx: "map_of ds X = Some dx" and rem: "values_to_remove ds Y i j dx = Inr []"
        by (auto simp: revise_def split: option.splits sum.splits if_splits)
      show ?thesis
      proof (cases "dx = []")
        case True
        with dx Some ij p show ?thesis by (simp add: arc_consistent_def domain_of_def)
      next
        case False
        with values_to_remove_lookup[OF rem] obtain dy where dy: "map_of ds Y = Some dy" by auto
        from values_to_remove_unsupported[OF rem dy] have "\<forall>vx \<in> set dx. supported i j dy vx"
          by auto
        with dx dy Some ij p show ?thesis
          by (simp add: arc_consistent_def domain_of_def list_all_iff)
      qed
    qed
  qed
qed

lemma arc_consistent_iff:
  "arc_consistent cw ds X Y \<longleftrightarrow>
     (\<forall>i j. overlaps cw (X, Y) = Some (Some (i, j)) \<longrightarrow>
        (\<forall>vx \<in> set (domain_of ds X). \<exists>vy \<in> set (domain_of ds Y).
           i < length vx \<and> j < length vy \<and> vx ! i = vy ! j))"
  by (auto simp: arc_consistent_def supported_def list_all_iff list_ex_iff
           split: option.splits)

lemma arc_consistent_same_domains:
  assumes "domain_of ds' P = domain_of ds P" and "domain_of ds' Q = domain_of ds Q"
  shows "arc_consistent cw ds' P Q = arc_consistent cw ds P Q"
  unfolding arc_consistent_iff using assms by simp

lemma arc_consistent_smaller:
  assumes "arc_consistent cw ds P Q"
    and "set (domain_of ds' P) \<subseteq> set (domain_of ds P)" and "domain_of ds' Q = domain_of ds Q"
  shows "arc_consistent cw ds' P Q"
  using assms unfolding arc_consistent_iff by (simp add: subset_iff)

lemma arc_consistent_revised:
  assumes "overlaps cw (X, Y) = Some (Some (i, j))"
    and "domain_of ds' X = filter (supported i j dy) dx" and "domain_of ds' Y = dy"
  shows "arc_consistent cw ds' X Y"
  using assms by (simp add: arc_consistent_def list_all_iff)

lemma arc_consistent_reverse:
  assumes ov: "overlaps cw (X, Y) = Some (Some (i, j))"
    and sym: "\<And>i' j'. overlaps cw (Y, X) = Some (Some (j', i')) \<Longrightarrow> overlaps cw (X, Y) = Some (Some (i', j'))"
    and before: "arc_consistent cw ds Y X"
    and old: "domain_of ds X = dx" "domain_of ds Y = dy"
    and new: "domain_of ds' X = filter (supported i j dy) dx" "domain_of ds' Y = dy"
  shows "arc_consistent cw ds' Y X"
  unfolding arc_consistent_iff
proof (intro allI impI ballI)
  fix j' i' vy
  assume rec: "overlaps cw (Y, X) = Some (Some (j', i'))" and vy: "vy \<in> set (domain_of ds' Y)"
  from sym[OF rec] ov have eq: "i' = i" "j' = j" by simp_all
  from vy new(2) old(2) have "vy \<in> set (domain_of ds Y)" by simp
  with before rec obtain vx where
    vx: "vx \<in> set (domain_of ds X)" "j' < length vy" "i' < length vx" "vy ! j' = vx ! i'"
    unfolding arc_consistent_iff by blast
  from vy new(2) have "vy \<in> set dy" by simp
  with vx eq have "supported i j dy vx"
    by (auto simp: supported_def list_ex_iff)
  with vx(1) old(1) new(1) have "vx \<in> set (domain_of ds' X)" by simp
  with vx show "\<exists>vx \<in> set (domain_of ds' X). j' < length vy \<and> i' < length vx \<and> vy ! j' = vx ! i'"
    by blast
qed

lemma revise_True_keeps_arcs:
  assumes wf: "wf_crossword cw"
    and X: "X \<in> set (variables cw)" and Y: "Y \<in> set (neighbors cw X)"
    and rev: "revise cw X Y ds = (Inr True, ds')"
    and P: "P \<in> set (variables cw)" and Q: "Q \<in> set (neighbors cw P)"
    and prior: "(P, Q) \<in> set ((X, Y) # queue) \<or> arc_consistent cw ds P Q"
  shows "(P, Q) \<in> set (queue @ map (\<lambda>Z. (Z, X)) (filter (\<lambda>Z. Z \<noteq> Y) (neighbors cw X)))
         \<or> arc_consistent cw ds' P Q"
proof -
  from rev obtain i j dx dy where
    ov: "overlaps cw (X, Y) = Some (Some (i, j))" and
    dx: "map_of ds X = Some dx" and dy: "map_of ds Y = Some dy" and
    ds': "ds' = AList.update X (filter (supported i j dy) dx) ds"
    by (rule revise_True_result)
  note wfXY = wf_crosswordD[OF wf X Y]
  note wfPQ = wf_crosswordD[OF wf P Q]
  have oldX: "domain_of ds X = dx" and oldY: "domain_of ds Y = dy"
    using dx dy by (simp_all add: domain_of_def)
  have newX: "domain_of ds' X = filter (supported i j dy) dx"
    by (simp add: ds' domain_of_update)
  have other: "domain_of ds' k = domain_of ds k" if "k \<noteq> X" for k
    using that by (simp add: ds' domain_of_update)
  have newY: "domain_of ds' Y = dy" using other[of Y] wfXY(1) oldY by simp
  have sub: "set (domain_of ds' X) \<subseteq> set (domain_of ds X)" using newX oldX by auto
  show ?thesis
  proof (cases "Q = X")
    case QX: True
    with wfPQ have PX: "P \<noteq> X" and PnX: "P \<in> set (neighbors cw X)" by auto
    show ?thesis
    proof (cases "P = Y")
      case False
      with PnX QX show ?thesis by auto
    next
      case PY: True
      from prior PY QX wfXY(1) consider "(Y, X) \<in> set queue" | "arc_consistent cw ds Y X"
        by auto
      then show ?thesis
      proof cases
        case 1
        with PY QX show ?thesis by simp
      next
        case 2
        have "arc_consistent cw ds' Y X"
          using ov wfXY(4) 2 oldX oldY newX newY by (rule arc_consistent_reverse)
        with PY QX show ?thesis by simp
      qed
    qed
  next
    case QX: False
    show ?thesis
    proof (cases "P = X")
      case PX: True
      show ?thesis
      proof (cases "Q = Y")
        case True
        have "arc_consistent cw ds' X Y" using ov newX newY by (rule arc_consistent_revised)
        with PX True show ?thesis by simp
      next
        case False
        from prior PX False consider "(X, Q) \<in> set queue" | "arc_consistent cw ds X Q"
          by auto
        then show ?thesis
        proof cases
          case 1
          with PX show ?thesis by simp
        next
          case 2
          then have "arc_consistent cw ds' X Q" using sub other[OF QX]
            by (rule arc_consistent_smaller)
          with PX show ?thesis by simp
        qed
      qed
    next
      case PX: False
      from prior PX consider "(P, Q) \<in> set queue" | "arc_consistent cw ds P Q" by auto
      then show ?thesis
      proof cases
        case 1
        then show ?thesis by simp
      next
        case 2
        with arc_consistent_same_domains[OF other[OF PX] other[OF QX], of cw]
        show ?thesis by simp
      qed
    qed
  qed
qed

lemma ac3_loop_sound:
  "wf_crossword cw \<Longrightarrow> neighbor_arcs cw queue \<Longrightarrow> arcs_pending_or_consistent cw queue ds \<Longrightarrow>
   ac3_loop cw queue ds = (Inr True, ds') \<Longrightarrow> arcs_pending_or_consistent cw [] ds'"
proof (induction cw queue ds rule: ac3_loop.induct)
  case (1 cw ds)
  then show ?case by simp
next
  case (2 cw X Y queue ds)
  note wf = "2.prems"(1)
  from "2.prems"(2) have X: "X \<in> set (variables cw)" and Y: "Y \<in> set (neighbors cw X)"
    and rest: "neighbor_arcs cw queue"
    by (simp_all add: neighbor_arcs_def)
  obtain r1 ds1 where rev: "revise cw X Y ds = (r1, ds1)" by (cases "revise cw X Y ds")
  show ?case
  proof (cases r1)
    case (Inl e)
    with "2.prems"(4) rev show ?thesis by simp
  next
    case (Inr b)
    show ?thesis
    proof (cases b)
      case False
      with "2.prems"(4) rev Inr have run: "ac3_loop cw queue ds1 = (Inr True, ds')" by simp
      from rev Inr False have same: "ds1 = ds" and ok: "arc_consistent cw ds X Y"
        using revise_False_result[of cw X Y ds ds1] by simp_all
      have "arcs_pending_or_consistent cw queue ds1"
        unfolding arcs_pending_or_consistent_def
      proof (intro ballI)
        fix P Q assume "P \<in> set (variables cw)" "Q \<in> set (neighbors cw P)"
        with "2.prems"(3) have "(P, Q) \<in> set ((X, Y) # queue) \<or> arc_consistent cw ds P Q"
          by (simp add: arcs_pending_or_consistent_def)
        with ok same show "(P, Q) \<in> set queue \<or> arc_consistent cw ds1 P Q" by auto
      qed
      with rest run show ?thesis
        using "2.IH"(2)[of r1 ds1 b] rev Inr False wf by simp
    next
      case True
      show ?thesis
      proof (cases "map_of ds1 X")
        case None
        with "2.prems"(4) rev Inr True show ?thesis by simp
      next
        case (Some dx)
        show ?thesis
        proof (cases "dx = []")
          case e: True
          with "2.prems"(4) rev Inr True Some show ?thesis by simp
        next
          case ne: False
          let ?queue' = "queue @ map (\<lambda>Z. (Z, X)) (filter (\<lambda>Z. Z \<noteq> Y) (neighbors cw X))"
          from "2.prems"(4) rev Inr True Some ne have run:
            "ac3_loop cw ?queue' ds1 = (Inr True, ds')" by simp
          from rev Inr True have rev': "revise cw X Y ds = (Inr True, ds1)" by simp
          have arcs: "neighbor_arcs cw ?queue'"
            using rest wf_crosswordD(2,3)[OF wf X]
            by (auto simp: neighbor_arcs_def)
          have "arcs_pending_or_consistent cw ?queue' ds1"
            unfolding arcs_pending_or_consistent_def
          proof (intro ballI)
            fix P Q assume P: "P \<in> set (variables cw)" and Q: "Q \<in> set (neighbors cw P)"
            with "2.prems"(3) have "(P, Q) \<in> set ((X, Y) # queue) \<or> arc_consistent cw ds P Q"
              by (simp add: arcs_pending_or_consistent_def)
            with wf X Y rev' P Q show "(P, Q) \<in> set ?queue' \<or> arc_consistent cw ds1 P Q"
              by (rule revise_True_keeps_arcs)
          qed
          with arcs run show ?thesis
            using "2.IH"(1)[of r1 ds1 b dx] rev Inr True Some ne wf by simp
        qed
      qed
    qed
  qed
qed

text \<open>
  C5. On a crossword whose neighbors and overlaps are symmetric, when \<open>ac3\<close> seeded
  with all arcs returns \<open>True\<close>, every word left in the domain of a variable \<open>X\<close> has,
  for every neighbor \<open>Y\<close> of \<open>X\<close> with a recorded overlap \<open>(i, j)\<close>, a word in the
  domain of \<open>Y\<close> whose character at \<open>j\<close> is its character at \<open>i\<close>.
\<close>

theorem ac3_arc_consistent:
  assumes "wf_crossword cw" and "ac3 cw None ds = (Inr True, ds')"
  shows "\<forall>X \<in> set (variables cw). \<forall>Y \<in> set (neighbors cw X). \<forall>i j.
           overlaps cw (X, Y) = Some (Some (i, j)) \<longrightarrow>
           (\<forall>vx \<in> set (domain_of ds' X). \<exists>vy \<in> set (domain_of ds' Y).
              i < length vx \<and> j < length vy \<and> vx ! i = vy ! j)"
proof -
  from assms(2) have run: "ac3_loop cw (get_arcs cw) ds = (Inr True, ds')"
    by (simp add: ac3_def)
  have "neighbor_arcs cw (get_arcs cw)"
    by (auto simp: neighbor_arcs_def get_arcs_def)
  moreover have "arcs_pending_or_consistent cw (get_arcs cw) ds"
    by (auto simp: arcs_pending_or_consistent_def get_arcs_def)
  ultimately have "arcs_pending_or_consistent cw [] ds'"
    using run by (rule ac3_loop_sound[OF assms(1)])
  then show ?thesis
    by (simp add: arcs_pending_or_consistent_def arc_consistent_iff)
qed

theorem ac3_arc_consistent_witness:
  "wf_crossword cat_tap \<and>
   ac3 cat_tap None cat_tap_domains = (Inr True, [(slot_A, [''cat'']), (slot_D, [''tap''])]) \<and>
   (\<exists>vy \<in> set (domain_of [(slot_A, [''cat'']), (slot_D, [''tap''])] slot_D).
      2 < length ''cat'' \<and> 0 < length vy \<and> ''cat'' ! 2 = vy ! 0)"
proof -
  have wf: "wf_crossword cat_tap" by code_simp
  have run: "ac3 cat_tap None cat_tap_domains = (Inr True, [(slot_A, [''cat'']), (slot_D, [''tap''])])"
    by code_simp
  have A: "slot_A \<in> set (variables cat_tap)" by code_simp
  have D: "slot_D \<in> set (neighbors cat_tap slot_A)" by code_simp
  have ov: "overlaps cat_tap (slot_A, slot_D) = Some (Some (2, 0))" by code_simp
  have vx: "''cat'' \<in> set (domain_of [(slot_A, [''cat'']), (slot_D, [''tap''])] slot_A)" by code_simp
  from ac3_arc_consistent[OF wf run] A D ov vx
  have "\<exists>vy \<in> set (domain_of [(slot_A, [''cat'']), (slot_D, [''tap''])] slot_D).
      2 < length ''cat'' \<and> 0 < length vy \<and> ''cat'' ! 2 = vy ! 0"
    by blast
  with wf run show ?thesis by simp
qed

section \<open>What a failed search leaves in the assignment\<close>

lemma backtrack_failure_state:
  "backtrack cw ds a = (Inr None, a') \<Longrightarrow> left_behind a a' k"
  "try_words cw ds var ws a = (Inr None, a') \<Longrightarrow>
     (k \<noteq> var \<longrightarrow> left_behind a a' k) \<and>
     (ws = [] \<longrightarrow> a' = a) \<and> (ws \<noteq> [] \<longrightarrow> map_of a' var = Some None)"
proof (induction cw ds a and cw ds var ws a arbitrary: a' and a' rule: backtrack_try_words.induct)
  case (1 cw ds a a')
  from "1.prems" have nc: "\<not> assignment_complete cw a" by (auto split: if_splits)
  with "1.prems" obtain v cands where
    sel: "select_unassigned_variable ds a = Inr v" and
    ord: "order_domain_values cw ds v a = Inr cands" and
    run: "try_words cw ds v cands a = (Inr None, a')"
    by (auto split: sum.splits)
  from select_unassigned_variable_in[OF sel] have "v \<notin> fst ` set a"
    by (simp add: unassigned_def)
  then have none: "map_of a v = None" by (simp add: map_of_eq_None_iff)
  from "1.IH"[of v cands a'] nc sel ord run have
    others: "k \<noteq> v \<longrightarrow> left_behind a a' k" and
    e: "cands = [] \<longrightarrow> a' = a" and n: "cands \<noteq> [] \<longrightarrow> map_of a' v = Some None"
    by simp_all
  have "left_behind a a' v"
    using e n none by (cases "cands = []") (simp_all add: left_behind_def)
  with others show ?case by blast
next
  case (2 cw ds var a a')
  then show ?case by (simp add: left_behind_def)
next
  case (3 cw ds var word ws a a')
  let ?a1 = "AList.update var (Some word) a"
  have final: ?case
    if run: "try_words cw ds var ws (AList.update var None b) = (Inr None, a')"
      and ih: "(k \<noteq> var \<longrightarrow> left_behind (AList.update var None b) a' k) \<and>
        (ws = [] \<longrightarrow> a' = AList.update var None b) \<and> (ws \<noteq> [] \<longrightarrow> map_of a' var = Some None)"
      and b: "k \<noteq> var \<longrightarrow> left_behind a b k" for b
  proof -
    have "left_behind a a' k" if "k \<noteq> var"
    proof -
      from ih that have "left_behind (AList.update var None b) a' k" by simp
      moreover from b that have "left_behind a b k" by simp
      ultimately show ?thesis
        using that by (auto simp: left_behind_def AList.update_conv')
    qed
    moreover have "map_of a' var = Some None"
      using ih by (cases "ws = []") (simp_all add: AList.update_conv')
    ultimately show ?thesis by simp
  qed
  show ?case
  proof (cases "consistent cw ?a1")
    case (Inl e)
    with "3.prems" show ?thesis by simp
  next
    case (Inr c)
    show ?thesis
    proof (cases c)
      case False
      with "3.prems" Inr have run:
        "try_words cw ds var ws (AList.update var None ?a1) = (Inr None, a')" by simp
      then have ih: "(k \<noteq> var \<longrightarrow> left_behind (AList.update var None ?a1) a' k) \<and>
        (ws = [] \<longrightarrow> a' = AList.update var None ?a1) \<and> (ws \<noteq> [] \<longrightarrow> map_of a' var = Some None)"
        using "3.IH"(3)[of c a'] Inr False by simp
      have "k \<noteq> var \<longrightarrow> left_behind a ?a1 k"
        by (simp add: left_behind_def AList.update_conv')
      with run ih show ?thesis by (rule final)
    next
      case True
      obtain res a2 where bt: "backtrack cw ds ?a1 = (res, a2)" by (cases "backtrack cw ds ?a1")
      show ?thesis
      proof (cases res)
        case (Inl e)
        with "3.prems" Inr True bt show ?thesis by simp
      next
        case res: (Inr found)
        show ?thesis
        proof (cases found)
          case (Some r)
          with "3.prems" Inr True bt res show ?thesis by simp
        next
          case None
          with "3.prems" Inr True bt res have run:
            "try_words cw ds var ws (AList.update var None a2) = (Inr None, a')" by simp
          then have ih: "(k \<noteq> var \<longrightarrow> left_behind (AList.update var None a2) a' k) \<and>
            (ws = [] \<longrightarrow> a' = AList.update var None a2) \<and> (ws \<noteq> [] \<longrightarrow> map_of a' var = Some None)"
            using "3.IH"(2)[of c res a2 found a'] Inr True bt res None by simp
          have "left_behind ?a1 a2 k"
            using "3.IH"(1)[of c a2] Inr True bt res None by simp
          then have "k \<noteq> var \<longrightarrow> left_behind a a2 k"
            by (auto simp: left_behind_def AList.update_conv')
          with run ih show ?thesis by (rule final)
        qed
      qed
    qed
  qed
qed

lemma keyed_length: "keyed f xs = Inr kxs \<Longrightarrow> length kxs = length xs"
  by (induction xs arbitrary: kxs) (auto split: sum.splits)

lemma order_domain_values_length:
  assumes "order_domain_values cw ds var a = Inr ws"
  shows "length ws = length (domain_of ds var)"
proof -
  from assms obtain dv kvs where
    "map_of ds var = Some dv" "keyed (\<lambda>val. count_conflicts ds a val (neighbors cw var)) dv = Inr kvs"
    "ws = map snd (sort_key fst kvs)"
    by (auto simp: order_domain_values_def split: option.splits sum.splits)
  then show ?thesis using keyed_length[of _ dv kvs] by (simp add: domain_of_def)
qed

lemma tried_keys:
  "v \<in> set (tried cw ds a) \<Longrightarrow>
     v \<notin> fst ` set a \<and> v \<in> fst ` set (snd (backtrack cw ds a))"
  "v \<in> set (tried_loop cw ds var ws a) \<Longrightarrow>
     (v = var \<or> v \<notin> fst ` set a) \<and> v \<in> fst ` set (snd (try_words cw ds var ws a))"
proof (induction cw ds a and cw ds var ws a rule: tried_tried_loop.induct)
  case (1 cw ds a)
  from "1.prems" have nc: "\<not> assignment_complete cw a"
    by (auto simp: tried.simps split: if_splits)
  obtain sel where sel: "select_unassigned_variable ds a = Inr sel"
    using "1.prems" nc by (cases "select_unassigned_variable ds a") (simp_all add: tried.simps)
  obtain cands where ord: "order_domain_values cw ds sel a = Inr cands"
    using "1.prems" nc sel by (cases "order_domain_values cw ds sel a") (simp_all add: tried.simps)
  have mem: "v \<in> set (tried_loop cw ds sel cands a)"
    using "1.prems" nc sel ord by (simp add: tried.simps)
  from "1.IH"[OF nc sel ord mem] have
    "v = sel \<or> v \<notin> fst ` set a" "v \<in> fst ` set (snd (try_words cw ds sel cands a))"
    by simp_all
  moreover from select_unassigned_variable_in[OF sel] have "sel \<notin> fst ` set a"
    by (simp add: unassigned_def)
  ultimately show ?case using nc sel ord by auto
next
  case (2 cw ds var a)
  then show ?case by simp
next
  case (3 cw ds var word ws a)
  let ?a1 = "AList.update var (Some word) a"
  have k1: "fst ` set ?a1 = insert var (fst ` set a)" by (rule keys_update)
  show ?case
  proof (cases "consistent cw ?a1")
    case (Inl e)
    with "3.prems" have "v = var" by simp
    with Inl k1 show ?thesis by simp
  next
    case (Inr b)
    show ?thesis
    proof (cases b)
      case False
      let ?a2 = "AList.update var None ?a1"
      have k2: "fst ` set ?a2 = insert var (fst ` set a)" by (simp add: keys_update)
      have res: "try_words cw ds var (word # ws) a = try_words cw ds var ws ?a2"
        using Inr False by simp
      from "3.prems" Inr False consider "v = var" | "v \<in> set (tried_loop cw ds var ws ?a2)"
        by auto
      then show ?thesis
      proof cases
        case 1
        have "var \<in> fst ` set (snd (try_words cw ds var ws ?a2))"
          using backtrack_keys(2)[of ?a2 cw ds var ws] k2 by auto
        with 1 res show ?thesis by simp
      next
        case 2
        have "(v = var \<or> v \<notin> fst ` set ?a2) \<and> v \<in> fst ` set (snd (try_words cw ds var ws ?a2))"
          using "3.IH"(3)[of b] Inr False 2 by simp
        with k2 res show ?thesis by auto
      qed
    next
      case True
      obtain r a' where bt: "backtrack cw ds ?a1 = (r, a')" by (cases "backtrack cw ds ?a1")
      have sub: "fst ` set ?a1 \<subseteq> fst ` set a'"
        using backtrack_keys(1)[of ?a1 cw ds] bt by simp
      let ?a2 = "AList.update var None a'"
      have k2: "fst ` set ?a2 = insert var (fst ` set a')" by (rule keys_update)
      have final: "fst ` set a' \<subseteq> fst ` set (snd (try_words cw ds var (word # ws) a))"
      proof (cases r)
        case (Inl e)
        with Inr True bt show ?thesis by simp
      next
        case r: (Inr res)
        show ?thesis
        proof (cases res)
          case (Some result)
          with Inr True bt r show ?thesis by simp
        next
          case None
          with Inr True bt r have "try_words cw ds var (word # ws) a = try_words cw ds var ws ?a2"
            by simp
          with backtrack_keys(2)[of ?a2 cw ds var ws] k2 show ?thesis by auto
        qed
      qed
      from "3.prems" Inr True bt consider "v = var" | "v \<in> set (tried cw ds ?a1)"
        | "r = Inr None" "v \<in> set (tried_loop cw ds var ws ?a2)"
        by (auto split: sum.splits option.splits)
      then show ?thesis
      proof cases
        case 1
        with k1 sub final show ?thesis by auto
      next
        case 2
        have "v \<notin> fst ` set ?a1 \<and> v \<in> fst ` set (snd (backtrack cw ds ?a1))"
          using "3.IH"(1)[of b] Inr True 2 by simp
        with bt have "v \<notin> fst ` set ?a1" "v \<in> fst ` set a'"
          by simp_all
        with k1 final show ?thesis by auto
      next
        case 3
        from 3(1) Inr True bt have res: "try_words cw ds var (word # ws) a = try_words cw ds var ws ?a2"
          by simp
        have "(v = var \<or> v \<notin> fst ` set ?a2) \<and> v \<in> fst ` set (snd (try_words cw ds var ws ?a2))"
          using "3.IH"(2)[of b r a' None] Inr True bt 3 by simp
        with k1 k2 sub res show ?thesis by auto
      qed
    qed
  qed
qed

text \<open>
  C10. \<open>backtrack\<close> works on the dictionary it is given, and the model returns the
  state it leaves. Whatever the call returns or raises, no key is removed, and every
  variable it has tried, in the call itself or in a call nested in it, was no key
  before and is a key afterwards. When \<open>backtrack\<close> returns \<open>None\<close>, every old key has
  its old value and every new key is mapped to \<open>None\<close>; every variable tried is
  mapped to \<open>None\<close>, is not in the list of unassigned variables that
  \<open>select_unassigned_variable\<close> computes and is not returned by it, and
  \<open>assignment_complete\<close> does not count it as assigned; if a variable was tried the
  dictionary is not what it was before the call; and the variable that the call
  selects is tried when its domain has a word.
\<close>

theorem backtrack_failure_leaves_None:
  "fst ` set a \<subseteq> fst ` set (snd (backtrack cw ds a)) \<and>
   (\<forall>v \<in> set (tried cw ds a).
      v \<notin> fst ` set a \<and> v \<in> fst ` set (snd (backtrack cw ds a))) \<and>
   (backtrack cw ds a = (Inr None, a') \<longrightarrow>
      (\<forall>k. map_of a' k = map_of a k \<or> (map_of a k = None \<and> map_of a' k = Some None)) \<and>
      (\<forall>v \<in> set (tried cw ds a).
         map_of a' v = Some None \<and>
         v \<notin> set (unassigned ds a') \<and>
         select_unassigned_variable ds a' \<noteq> Inr v \<and>
         (v \<in> set (variables cw) \<longrightarrow> \<not> assignment_complete cw a')) \<and>
      (tried cw ds a \<noteq> [] \<longrightarrow> a' \<noteq> a) \<and>
      (\<forall>var. select_unassigned_variable ds a = Inr var \<and> domain_of ds var \<noteq> [] \<longrightarrow>
         var \<in> set (tried cw ds a)))"
proof -
  have keys: "fst ` set a \<subseteq> fst ` set (snd (backtrack cw ds a))"
    by (rule backtrack_keys(1))
  have tr: "\<forall>v \<in> set (tried cw ds a).
      v \<notin> fst ` set a \<and> v \<in> fst ` set (snd (backtrack cw ds a))"
    using tried_keys(1) by blast
  have fail: "(\<forall>k. map_of a' k = map_of a k \<or> (map_of a k = None \<and> map_of a' k = Some None)) \<and>
      (\<forall>v \<in> set (tried cw ds a).
         map_of a' v = Some None \<and>
         v \<notin> set (unassigned ds a') \<and>
         select_unassigned_variable ds a' \<noteq> Inr v \<and>
         (v \<in> set (variables cw) \<longrightarrow> \<not> assignment_complete cw a')) \<and>
      (tried cw ds a \<noteq> [] \<longrightarrow> a' \<noteq> a) \<and>
      (\<forall>var. select_unassigned_variable ds a = Inr var \<and> domain_of ds var \<noteq> [] \<longrightarrow>
         var \<in> set (tried cw ds a))"
    if bt: "backtrack cw ds a = (Inr None, a')"
  proof -
    have lb: "\<forall>k. map_of a' k = map_of a k \<or> (map_of a k = None \<and> map_of a' k = Some None)"
      using backtrack_failure_state(1)[OF bt] by (simp add: left_behind_def)
    have nc: "\<not> assignment_complete cw a" using bt by (auto split: if_splits)
    have each: "map_of a' v = Some None \<and>
         v \<notin> set (unassigned ds a') \<and>
         select_unassigned_variable ds a' \<noteq> Inr v \<and>
         (v \<in> set (variables cw) \<longrightarrow> \<not> assignment_complete cw a')"
      if v: "v \<in> set (tried cw ds a)" for v
    proof -
      from tried_keys(1)[OF v] bt have old: "v \<notin> fst ` set a" and new: "v \<in> fst ` set a'"
        by simp_all
      from old have "map_of a v = None" by (simp add: map_of_eq_None_iff)
      moreover from new have "map_of a' v \<noteq> None" by (simp add: map_of_eq_None_iff)
      ultimately have n: "map_of a' v = Some None" using lb by metis
      from new have un: "v \<notin> set (unassigned ds a')" by (simp add: unassigned_def)
      then have "select_unassigned_variable ds a' \<noteq> Inr v"
        using select_unassigned_variable_in[of ds a' v] by blast
      moreover have "\<not> assignment_complete cw a'" if "v \<in> set (variables cw)"
        using that n by (auto simp: assignment_complete_def list_all_iff intro!: bexI[of _ v])
      ultimately show ?thesis using n un by simp
    qed
    have differs: "a' \<noteq> a" if "tried cw ds a \<noteq> []"
    proof -
      from that obtain v where v: "v \<in> set (tried cw ds a)" by (cases "tried cw ds a") auto
      from tried_keys(1)[OF v] bt have "v \<notin> fst ` set a" "v \<in> fst ` set a'" by simp_all
      then show ?thesis by auto
    qed
    have selected: "var \<in> set (tried cw ds a)"
      if s: "select_unassigned_variable ds a = Inr var" and ne: "domain_of ds var \<noteq> []" for var
    proof -
      from bt nc s obtain cands where ord: "order_domain_values cw ds var a = Inr cands"
        by (cases "order_domain_values cw ds var a") simp_all
      from order_domain_values_length[OF ord] ne obtain word rest where "cands = word # rest"
        by (cases cands) auto
      with nc s ord show ?thesis by (simp add: tried.simps)
    qed
    from lb each differs selected show ?thesis by blast
  qed
  from keys tr fail show ?thesis by blast
qed

theorem backtrack_failure_leaves_None_witness:
  "backtrack corner dead_end_domains [] = (Inr None, both_tried) \<and>
   tried corner dead_end_domains [] = [slot_X, slot_Y] \<and>
   slot_Y \<in> set (tried corner dead_end_domains []) \<and>
   slot_Y \<in> set (variables corner) \<and>
   map_of both_tried slot_Y = Some None \<and>
   slot_Y \<notin> set (unassigned dead_end_domains both_tried) \<and>
   \<not> assignment_complete corner both_tried \<and>
   both_tried \<noteq> []"
proof -
  have b: "backtrack corner dead_end_domains [] = (Inr None, both_tried)"
    by code_simp
  have t: "tried corner dead_end_domains [] = [slot_X, slot_Y]"
    by code_simp
  have m: "slot_Y \<in> set (tried corner dead_end_domains [])"
    by (simp add: t)
  have v: "slot_Y \<in> set (variables corner)"
    by code_simp
  have e: "tried corner dead_end_domains [] \<noteq> []"
    by (simp add: t)
  note th = backtrack_failure_leaves_None[of "[]" corner dead_end_domains both_tried]
  from th b have f: "\<forall>v \<in> set (tried corner dead_end_domains []).
         map_of both_tried v = Some None \<and>
         v \<notin> set (unassigned dead_end_domains both_tried) \<and>
         select_unassigned_variable dead_end_domains both_tried \<noteq> Inr v \<and>
         (v \<in> set (variables corner) \<longrightarrow> \<not> assignment_complete corner both_tried)"
    by blast
  from th b e have ne: "both_tried \<noteq> []" by blast
  from f m v have "map_of both_tried slot_Y = Some None"
    "slot_Y \<notin> set (unassigned dead_end_domains both_tried)"
    "\<not> assignment_complete corner both_tried"
    by blast+
  with b t m v ne show ?thesis by (intro conjI)
qed

section \<open>Backtracking and the unassigned marker\<close>

text \<open>
  C1 (backtracking completeness) does not hold of the code. On \<open>corner\<close> with
  \<open>corner_domains\<close> the assignment \<open>slot_X = cd\<close>, \<open>slot_Y = ce\<close> is complete and
  consistent and takes every word from the domain of its variable, yet \<open>backtrack\<close>
  from the empty assignment ends in the \<open>ValueError\<close> of \<open>min\<close>: \<open>slot_X\<close> has the
  smaller domain and is selected first, \<open>ab\<close> has the smaller key and is tried first,
  no word of \<open>slot_Y\<close> fits \<open>ab\<close>, and the failed \<open>slot_Y\<close> is left in the dictionary
  as a key mapped to \<open>None\<close>; with \<open>slot_X = cd\<close> the next call finds the assignment
  incomplete and no variable that is not a key. None of these steps depends on an
  iteration order.
\<close>

theorem backtrack_misses_solution:
  "fst (backtrack corner corner_domains []) = Inl ValueError_min_empty \<and>
   assignment_complete corner [(slot_X, Some ''cd''), (slot_Y, Some ''ce'')] \<and>
   consistent corner [(slot_X, Some ''cd''), (slot_Y, Some ''ce'')] = Inr True \<and>
   ''cd'' \<in> set (domain_of corner_domains slot_X) \<and>
   ''ce'' \<in> set (domain_of corner_domains slot_Y)"
  by code_simp

text \<open>
  The same failure through \<open>solve\<close>, on the word list \<open>ab\<close>, \<open>cd\<close>, \<open>ce\<close>, \<open>cf\<close> when
  the sets are iterated in the order written in \<open>corner\<close>: node consistency and
  propagation remove nothing, every word has the same key, \<open>ab\<close> is tried first for
  \<open>slot_X\<close> and fits no word of \<open>slot_Y\<close> except itself.
\<close>

lemma solve_misses_solution:
  "solve corner = Inl ValueError_min_empty \<and>
   assignment_complete corner [(slot_X, Some ''cd''), (slot_Y, Some ''ce'')] \<and>
   consistent corner [(slot_X, Some ''cd''), (slot_Y, Some ''ce'')] = Inr True"
  by code_simp

text \<open>
  C2 (the consistency predicate ignores unassigned variables) does not hold of the
  code. The uniqueness test of \<open>consistent\<close> compares all values of the dictionary,
  the \<open>None\<close>s too: the assignment that maps both slots to \<open>None\<close> has no assigned
  entry, so the predicate of section 4.3 holds of it and the empty assignment is
  consistent, but \<open>consistent\<close> returns \<open>False\<close> for it.
\<close>

theorem consistent_counts_None_as_word:
  "consistent corner [] = Inr True \<and>
   consistent corner [(slot_X, None), (slot_Y, None)] = Inr False \<and>
   spec_consistent corner [(slot_X, None), (slot_Y, None)]"
  by code_simp

end
